theory Spec2Isabelle
  imports Complex_Main "HOL-Library.Word" "HOL-Library.Multiset"
begin

unbundle bit_operations_syntax

chapter \<open>libfork: fork-join runtime, shallow embedding\<close>

section \<open>Common types\<close>

text \<open>
  Addresses and \<open>std::size_t\<close> are 64-bit words (LP64); \<open>+\<close>, \<open>-\<close> and \<open>*\<close> wrap
  as the unsigned arithmetic of the source does. A nullable pointer is an \<open>option\<close>.
  \<open>std::uint16_t\<close> counters are 16-bit words.
\<close>

type_synonym size_t = "64 word"
type_synonym ptr = "64 word"
type_synonym u16 = "16 word"

text \<open>
  What a modelled function can end with instead of a value: a C++ exception (the value an
  \<open>std::exception_ptr\<close> holds), a failed \<open>LF_ASSERT\<close>, or \<open>std::terminate\<close>.
\<close>

datatype error =
    bad_alloc                    \<comment> \<open>\<open>std::bad_alloc\<close>: a failed \<open>malloc\<close> or \<open>new\<close>\<close>
  | exception_before_join        \<comment> \<open>\<open>lf::exception_before_join\<close>\<close>
  | broken_future                \<comment> \<open>\<open>lf::broken_future\<close>\<close>
  | empty_future                 \<comment> \<open>\<open>lf::empty_future\<close>\<close>
  | application_exception nat    \<comment> \<open>an exception thrown by the body of a task\<close>
  | assertion_failed             \<comment> \<open>an \<open>LF_ASSERT\<close> does not hold\<close>
  | terminate                    \<comment> \<open>an exception leaves a \<open>noexcept\<close> function\<close>

text \<open>\<open>std::memory_order\<close>, as the atomic operations of the source name it.\<close>

datatype memory_order =
    memory_order_relaxed | memory_order_consume | memory_order_acquire
  | memory_order_release | memory_order_acq_rel | memory_order_seq_cst

section \<open>Segmented stack (stack.hpp)\<close>

text \<open>
  \<open>impl::k_new_align\<close> is \<open>__STDCPP_DEFAULT_NEW_ALIGNMENT__\<close>, 16 on the LP64 targets;
  \<open>sizeof(stacklet)\<close> is five pointers padded to that alignment, 48 bytes, which satisfies
  the two \<open>static_assert\<close>s of the class; \<open>sizeof(void *)\<close> is 8.
\<close>

definition k_new_align :: size_t where
  "k_new_align = 16"

definition sizeof_stacklet :: size_t where
  "sizeof_stacklet = 48"

definition sizeof_void_ptr :: size_t where
  "sizeof_void_ptr = 8"

text \<open>
  \<open>round_up_to_page_size(size)\<close>, with its three \<open>LF_ASSERT\<close>s as the failure
  \<open>assertion_failed\<close>.
\<close>

definition round_up_to_page_size :: "size_t \<Rightarrow> error + size_t" where
  "round_up_to_page_size sz =
     (let page_size = 4096;
          malloc_meta_data_size = 6 * sizeof_void_ptr;
          minimum = sz + malloc_meta_data_size;
          rounded = (minimum + page_size - 1) AND NOT (page_size - 1);
          request = rounded - malloc_meta_data_size
      in if \<not> minimum \<le> rounded then Inl assertion_failed
         else if rounded mod page_size \<noteq> 0 then Inl assertion_failed
         else if \<not> request \<ge> sz then Inl assertion_failed
         else Inr request)"

record stacklet =
  m_lo :: ptr
  m_sp :: ptr
  m_hi :: ptr
  m_prev :: "ptr option"
  m_next :: "ptr option"

text \<open>
  The malloc'ed stacklets, by base address. A \<open>stack\<close> object is its single member
  \<open>m_fib\<close>, so the state of a stack is the heap together with that pointer.
\<close>

type_synonym stacklets = "ptr \<rightharpoonup> stacklet"

record stack =
  m_fib :: ptr

definition capacity :: "stacklet \<Rightarrow> size_t" where
  "capacity s = m_hi s - m_lo s"

definition unused :: "stacklet \<Rightarrow> size_t" where
  "unused s = m_hi s - m_sp s"

definition empty_stacklet :: "stacklet \<Rightarrow> bool" where
  "empty_stacklet s \<longleftrightarrow> m_sp s = m_lo s"

definition is_top :: "stacklets \<Rightarrow> stacklet \<Rightarrow> bool" where
  "is_top h s =
     (case m_next s of
        Some n \<Rightarrow> (case h n of
                     Some ns \<Rightarrow> empty_stacklet ns \<and> m_next ns = None
                   | None \<Rightarrow> False)
      | None \<Rightarrow> True)"

text \<open>\<open>std::free(p)\<close>; freeing \<open>nullptr\<close> does nothing.\<close>

definition free :: "ptr option \<Rightarrow> stacklets \<Rightarrow> stacklets" where
  "free p h = (case p of None \<Rightarrow> h | Some a \<Rightarrow> h(a := None))"

text \<open>\<open>p->set_next(new_next)\<close>: \<open>std::free(std::exchange(m_next, new_next))\<close>.\<close>

definition set_next :: "ptr \<Rightarrow> ptr option \<Rightarrow> stacklets \<Rightarrow> stacklets" where
  "set_next p new_next h =
     (case h p of
        None \<Rightarrow> h
      | Some s \<Rightarrow> (free (m_next s) h)(p \<mapsto> s\<lparr>m_next := new_next\<rparr>))"

text \<open>
  \<open>stacklet::next_stacklet(size, prev)\<close>. The allocator is the parameter \<open>malloc\<close>:
  the address returned for a request, \<open>None\<close> for a null result.
\<close>

definition next_stacklet ::
  "(size_t \<Rightarrow> ptr option) \<Rightarrow> size_t \<Rightarrow> ptr option \<Rightarrow> stacklets \<Rightarrow> error + (ptr \<times> stacklets)" where
  "next_stacklet malloc sz prev h =
     (if \<not> (case prev of
                None \<Rightarrow> True
              | Some p \<Rightarrow> (case h p of None \<Rightarrow> False | Some ps \<Rightarrow> is_top h ps))
      then Inl assertion_failed
      else case round_up_to_page_size (sz + sizeof_stacklet) of
             Inl e \<Rightarrow> Inl e
           | Inr request \<Rightarrow>
               if \<not> request \<ge> sizeof_stacklet + sz then Inl assertion_failed
               else case malloc request of
                      None \<Rightarrow> Inl bad_alloc
                    | Some next \<Rightarrow>
                        (let h1 = (case prev of Some p \<Rightarrow> set_next p (Some next) h | None \<Rightarrow> h)
                         in Inr (next,
                                 h1(next \<mapsto> \<lparr>m_lo = next + sizeof_stacklet,
                                              m_sp = next + sizeof_stacklet,
                                              m_hi = next + request,
                                              m_prev = prev,
                                              m_next = None\<rparr>))))"

text \<open>\<open>LF_FIBRE_INIT_SIZE\<close> is 1.\<close>

definition next_stacklet_init :: "(size_t \<Rightarrow> ptr option) \<Rightarrow> stacklets \<Rightarrow> error + (ptr \<times> stacklets)" where
  "next_stacklet_init malloc h = next_stacklet malloc 1 None h"

text \<open>
  \<open>stack::allocate(size)\<close>: the pointer returned, the new heap and the new \<open>m_fib\<close>.
  The function starts and ends with \<open>LF_ASSERT(m_fib && m_fib->is_top())\<close>; \<open>bump\<close> is
  its last two statements, the second assertion and
  \<open>std::exchange(m_fib->m_sp, m_fib->m_sp + ext_size)\<close>.
\<close>

definition bump :: "size_t \<Rightarrow> stacklets \<Rightarrow> stack \<Rightarrow> error + (ptr \<times> stacklets \<times> stack)" where
  "bump ext_size h st =
     (case h (m_fib st) of
        None \<Rightarrow> Inl assertion_failed
      | Some tp \<Rightarrow>
          if \<not> is_top h tp then Inl assertion_failed
          else Inr (m_sp tp, h(m_fib st \<mapsto> tp\<lparr>m_sp := m_sp tp + ext_size\<rparr>), st))"

text \<open>\<open>m_fib->m_next != nullptr && m_fib->m_next->capacity() >= ext_size\<close>\<close>

definition cached_fits :: "stacklets \<Rightarrow> stacklet \<Rightarrow> size_t \<Rightarrow> bool" where
  "cached_fits h tp ext_size =
     (case m_next tp of
        None \<Rightarrow> False
      | Some n \<Rightarrow> (case h n of None \<Rightarrow> False | Some ns \<Rightarrow> capacity ns \<ge> ext_size))"

definition allocate ::
  "(size_t \<Rightarrow> ptr option) \<Rightarrow> size_t \<Rightarrow> stacklets \<Rightarrow> stack \<Rightarrow> error + (ptr \<times> stacklets \<times> stack)" where
  "allocate malloc sz h st =
     (case h (m_fib st) of
        None \<Rightarrow> Inl assertion_failed
      | Some tp \<Rightarrow>
          if \<not> is_top h tp then Inl assertion_failed
          else
            let ext_size = (sz + k_new_align - 1) AND NOT (k_new_align - 1)
            in if unused tp < ext_size then
                 (if cached_fits h tp ext_size
                  then bump ext_size h (st\<lparr>m_fib := the (m_next tp)\<rparr>)
                  else
                    (case next_stacklet malloc (max (2 * capacity tp) ext_size) (Some (m_fib st)) h of
                       Inl e \<Rightarrow> Inl e
                     | Inr (n, h') \<Rightarrow> bump ext_size h' (st\<lparr>m_fib := n\<rparr>)))
               else bump ext_size h st)"

text \<open>\<open>stack::deallocate(ptr)\<close>.\<close>

definition deallocate :: "ptr \<Rightarrow> stacklets \<Rightarrow> stack \<Rightarrow> error + (stacklets \<times> stack)" where
  "deallocate p h st =
     (case h (m_fib st) of
        None \<Rightarrow> Inl assertion_failed
      | Some tp \<Rightarrow>
          if \<not> is_top h tp then Inl assertion_failed
          else
            let tp' = tp\<lparr>m_sp := p\<rparr>;
                h1 = h(m_fib st \<mapsto> tp')
            in if empty_stacklet tp' then
                 (let (h2, fib2) =
                        (case m_prev tp' of
                           Some pv \<Rightarrow> (set_next (m_fib st) None h1, pv)
                         | None \<Rightarrow> (h1, m_fib st));
                      h3 = (case h2 fib2 of
                              None \<Rightarrow> h2
                            | Some f \<Rightarrow>
                                (case m_next f of
                                   None \<Rightarrow> h2
                                 | Some n \<Rightarrow>
                                     (case h2 n of
                                        None \<Rightarrow> h2
                                      | Some ns \<Rightarrow>
                                          if capacity ns > 8 * capacity f
                                          then set_next fib2 None h2 else h2)))
                  in Inr (h3, st\<lparr>m_fib := fib2\<rparr>))
               else Inr (h1, st))"

text \<open>\<open>stack::release()\<close>: \<open>std::exchange(m_fib, stacklet::next_stacklet())\<close>.\<close>

definition release ::
  "(size_t \<Rightarrow> ptr option) \<Rightarrow> stacklets \<Rightarrow> stack \<Rightarrow> error + (ptr \<times> stacklets \<times> stack)" where
  "release malloc h st =
     (case next_stacklet_init malloc h of
        Inl e \<Rightarrow> Inl e
      | Inr (n, h') \<Rightarrow> Inr (m_fib st, h', st\<lparr>m_fib := n\<rparr>))"

text \<open>
  \<open>stack(stacklet *frag)\<close>, with its \<open>LF_ASSERT(frag && frag->is_top())\<close>: a pointer the heap
  has no stacklet at stands for a null one.
\<close>

definition stack_from :: "ptr \<Rightarrow> stacklets \<Rightarrow> error + stack" where
  "stack_from frag h =
     (case h frag of
        None \<Rightarrow> Inl assertion_failed
      | Some fs \<Rightarrow> if is_top h fs then Inr \<lparr>m_fib = frag\<rparr> else Inl assertion_failed)"

text \<open>
  \<open>~stack()\<close>: \<open>LF_ASSERT(m_fib)\<close>, \<open>LF_ASSERT(!m_fib->m_prev)\<close>, then
  \<open>m_fib->set_next(nullptr)\<close>, which asserts \<open>is_top()\<close> and frees a cached stacklet, and
  \<open>std::free(m_fib)\<close>.
\<close>

definition stack_dtor :: "stacklets \<Rightarrow> stack \<Rightarrow> error + stacklets" where
  "stack_dtor h st =
     (case h (m_fib st) of
        None \<Rightarrow> Inl assertion_failed
      | Some tp \<Rightarrow>
          if m_prev tp \<noteq> None then Inl assertion_failed
          else if \<not> is_top h tp then Inl assertion_failed
          else Inr (free (Some (m_fib st)) (set_next (m_fib st) None h)))"

text \<open>
  \<open>*tls::stack() = stack{frag}\<close>: the temporary is constructed from \<open>frag\<close>, the move
  assignment swaps \<open>m_fib\<close> with it, and its destructor then runs on the stacklet the
  stack held before.
\<close>

definition assign_stack :: "ptr \<Rightarrow> stacklets \<Rightarrow> stack \<Rightarrow> error + (stacklets \<times> stack)" where
  "assign_stack frag h st =
     (case stack_from frag h of
        Inl e \<Rightarrow> Inl e
      | Inr tmp \<Rightarrow>
          (case stack_dtor h st of
             Inl e \<Rightarrow> Inl e
           | Inr h' \<Rightarrow> Inr (h', st\<lparr>m_fib := m_fib tmp\<rparr>)))"

text \<open>\<open>stack::empty()\<close>, with its \<open>LF_ASSERT(m_fib && m_fib->is_top())\<close>.\<close>

definition stack_empty :: "stacklets \<Rightarrow> stack \<Rightarrow> error + bool" where
  "stack_empty h st =
     (case h (m_fib st) of
        None \<Rightarrow> Inl assertion_failed
      | Some tp \<Rightarrow>
          if \<not> is_top h tp then Inl assertion_failed
          else Inr (empty_stacklet tp \<and> m_prev tp = None))"


text \<open>A pointer to a stacklet of the heap that is the top of its chain.\<close>

definition points_to_top :: "stacklets \<Rightarrow> ptr \<Rightarrow> bool" where
  "points_to_top h p = (case h p of None \<Rightarrow> False | Some ps \<Rightarrow> is_top h ps)"

subsection \<open>The allocation contract, in the words of the specification\<close>

text \<open>
  \<open>rounded_up_to a n\<close> is \<open>n\<close> rounded up to a multiple of \<open>a\<close>, on natural numbers,
  so without the wrap-around of the machine arithmetic.
\<close>

definition rounded_up_to :: "nat \<Rightarrow> nat \<Rightarrow> nat" where
  "rounded_up_to a n = ((n + a - 1) div a) * a"

definition aligned :: "ptr \<Rightarrow> bool" where
  "aligned p \<longleftrightarrow> unat p mod unat k_new_align = 0"

text \<open>
  What every constructor and member function of \<open>stack\<close> leaves behind: \<open>m_fib\<close> is a
  stacklet of the heap and the top of its chain, its stack pointer is within its bounds
  and aligned, and a cached stacklet ahead of it starts at an aligned address.
\<close>

definition stack_ok :: "stacklets \<Rightarrow> stack \<Rightarrow> bool" where
  "stack_ok h st =
     (case h (m_fib st) of
        None \<Rightarrow> False
      | Some tp \<Rightarrow>
          is_top h tp \<and> m_sp tp \<le> m_hi tp \<and> m_lo tp \<le> m_hi tp \<and> aligned (m_sp tp) \<and>
          (case m_next tp of
             None \<Rightarrow> True
           | Some c \<Rightarrow> (case h c of
                          None \<Rightarrow> False
                        | Some cs \<Rightarrow> m_lo cs \<le> m_hi cs \<and> aligned (m_lo cs))))"

text \<open>
  The contract of \<open>std::malloc\<close>: a block is aligned for every fundamental type, lies
  within the address space and is not one that is still allocated.
\<close>

definition malloc_ok :: "(size_t \<Rightarrow> ptr option) \<Rightarrow> stacklets \<Rightarrow> bool" where
  "malloc_ok malloc h =
     (\<forall>r b. malloc r = Some b \<longrightarrow> aligned b \<and> unat b + unat r < 2 ^ 64 \<and> h b = None)"

text \<open>
  Neither rounding wraps around \<open>2 ^ 64\<close>: the request with the alignment padding (15),
  and the larger of the request and twice the capacity of the top stacklet with the
  header (48), the allocator's metadata estimate (48) and the page padding (4095).
\<close>

definition no_wrap :: "size_t \<Rightarrow> stacklets \<Rightarrow> stack \<Rightarrow> bool" where
  "no_wrap sz h st \<longleftrightarrow>
     unat sz + 4206 < 2 ^ 64 \<and>
     (case h (m_fib st) of None \<Rightarrow> True | Some tp \<Rightarrow> 2 * unat (capacity tp) + 4191 < 2 ^ 64)"

text \<open>
  The behaviour of \<open>allocate(n)\<close> as the specification words it, for a result \<open>res\<close>:
  with \<open>n\<close> rounded up to the alignment, bump on the top stacklet if it has that much
  unused; otherwise move to the cached stacklet if its capacity suffices; otherwise
  malloc a stacklet for the larger of twice the top's capacity and the rounded request,
  header included, rounded so that the block and the allocator's metadata fill whole
  pages, and fail with \<open>bad_alloc\<close> when malloc fails. A pointer returned is aligned.
\<close>

definition allocate_spec ::
  "(size_t \<Rightarrow> ptr option) \<Rightarrow> size_t \<Rightarrow> stacklets \<Rightarrow> stack \<Rightarrow>
   error + (ptr \<times> stacklets \<times> stack) \<Rightarrow> bool" where
  "allocate_spec malloc sz h st res =
     (case h (m_fib st) of
        None \<Rightarrow> True
      | Some tp \<Rightarrow>
          (let n = rounded_up_to 16 (unat sz)
           in (if n \<le> unat (unused tp)
               then res = Inr (m_sp tp, h(m_fib st \<mapsto> tp\<lparr>m_sp := m_sp tp + of_nat n\<rparr>), st)
               else case (case m_next tp of
                            None \<Rightarrow> None
                          | Some c \<Rightarrow> (case h c of
                                         None \<Rightarrow> None
                                       | Some cs \<Rightarrow> if n \<le> unat (capacity cs) then Some (c, cs) else None)) of
                      Some (c, cs) \<Rightarrow>
                        res = Inr (m_sp cs, h(c \<mapsto> cs\<lparr>m_sp := m_sp cs + of_nat n\<rparr>), st\<lparr>m_fib := c\<rparr>)
                    | None \<Rightarrow>
                        (let want = max (2 * unat (capacity tp)) n;
                             request = rounded_up_to 4096 (want + 48 + 48) - 48
                         in case malloc (of_nat request) of
                              None \<Rightarrow> res = Inl bad_alloc
                            | Some b \<Rightarrow>
                                res = Inr (b + 48,
                                           (set_next (m_fib st) (Some b) h)
                                             (b \<mapsto> \<lparr>m_lo = b + 48, m_sp = b + 48 + of_nat n,
                                                    m_hi = b + of_nat request,
                                                    m_prev = Some (m_fib st), m_next = None\<rparr>),
                                           st\<lparr>m_fib := b\<rparr>))))
          \<and> (\<forall>p h' st'. res = Inr (p, h', st') \<longrightarrow> aligned p))"

text \<open>
  The heap after \<open>stack()\<close> when malloc returned the block at \<open>b\<close>: one empty stacklet,
  4048 bytes long with its header.
\<close>

definition fresh_stacklets :: "ptr \<Rightarrow> stacklets" where
  "fresh_stacklets b =
     [b \<mapsto> \<lparr>m_lo = b + 48, m_sp = b + 48, m_hi = b + 4048, m_prev = None, m_next = None\<rparr>]"

section \<open>Chase-Lev deque (deque.hpp)\<close>

text \<open>
  A task handle is the address of the frame it stands for. \<open>std::ptrdiff_t\<close> indices are
  integers; the buffer is the array of \<open>m_cap\<close> slots, indexed modulo the capacity with
  \<open>index & m_mask\<close>.
\<close>

type_synonym task_handle = ptr

record atomic_ring_buf =
  m_cap :: int
  m_mask :: int
  m_slots :: "task_handle list"

definition new_atomic_ring_buf :: "int \<Rightarrow> atomic_ring_buf" where
  "new_atomic_ring_buf cap = \<lparr>m_cap = cap, m_mask = cap - 1, m_slots = replicate (nat cap) 0\<rparr>"

definition ring_store :: "int \<Rightarrow> task_handle \<Rightarrow> atomic_ring_buf \<Rightarrow> atomic_ring_buf" where
  "ring_store index val b = b\<lparr>m_slots := (m_slots b)[nat (index AND m_mask b) := val]\<rparr>"

definition ring_load :: "int \<Rightarrow> atomic_ring_buf \<Rightarrow> task_handle" where
  "ring_load index b = m_slots b ! nat (index AND m_mask b)"

text \<open>\<open>resize(bot, top)\<close>: a buffer of twice the capacity with the slots \<open>top .. bot - 1\<close> copied.\<close>

definition ring_resize :: "int \<Rightarrow> int \<Rightarrow> atomic_ring_buf \<Rightarrow> atomic_ring_buf" where
  "ring_resize botv topv b =
     fold (\<lambda>i ptr. ring_store i (ring_load i b) ptr) [topv..botv - 1] (new_atomic_ring_buf (2 * m_cap b))"

record deque =
  m_top :: int
  m_bottom :: int
  m_buf :: atomic_ring_buf
  m_garbage :: "atomic_ring_buf list"

definition k_default_capacity :: int where
  "k_default_capacity = 1024"

definition k_garbage_reserve :: nat where
  "k_garbage_reserve = 64"

definition new_deque :: "int \<Rightarrow> deque" where
  "new_deque cap = \<lparr>m_top = 0, m_bottom = 0, m_buf = new_atomic_ring_buf cap, m_garbage = []\<rparr>"

text \<open>
  \<open>push(val)\<close>. \<open>new_ok\<close> says whether the \<open>new\<close> of \<open>resize\<close> finds memory, \<open>grow_ok\<close> whether
  the garbage vector can grow past the slots it reserved; a throw of its \<open>emplace_back\<close>
  is inside a \<open>noexcept\<close> lambda.
\<close>

definition push :: "bool \<Rightarrow> bool \<Rightarrow> task_handle \<Rightarrow> deque \<Rightarrow> error + deque" where
  "push new_ok grow_ok val d =
     (let bottom = m_bottom d; topv = m_top d; buf = m_buf d
      in if m_cap buf < (bottom - topv) + 1 then
           (if \<not> new_ok then Inl bad_alloc
            else if k_garbage_reserve \<le> length (m_garbage d) \<and> \<not> grow_ok then Inl terminate
            else Inr (d\<lparr>m_garbage := m_garbage d @ [buf],
                       m_buf := ring_store bottom val (ring_resize bottom topv buf),
                       m_bottom := bottom + 1\<rparr>))
         else Inr (d\<lparr>m_buf := ring_store bottom val buf, m_bottom := bottom + 1\<rparr>))"

text \<open>
  \<open>pop()\<close>, with \<open>full_context\<close>'s \<open>when_empty\<close> that returns \<open>nullptr\<close>. \<open>cas_ok\<close> is the
  outcome of the \<open>compare_exchange_strong\<close> on \<open>m_top\<close> for the last item; it fails when
  a thief has taken the item, who then has set \<open>m_top\<close> to \<open>top + 1\<close>.
\<close>

definition pop :: "bool \<Rightarrow> deque \<Rightarrow> task_handle option \<times> deque" where
  "pop cas_ok d =
     (let bottom = m_bottom d - 1; buf = m_buf d; topv = m_top d
      in if topv \<le> bottom then
           (if topv = bottom then
              (if \<not> cas_ok then (None, d\<lparr>m_top := topv + 1, m_bottom := bottom + 1\<rparr>)
               else (Some (ring_load bottom buf), d\<lparr>m_top := topv + 1, m_bottom := bottom + 1\<rparr>))
            else (Some (ring_load bottom buf), d\<lparr>m_bottom := bottom\<rparr>))
         else (None, d\<lparr>m_bottom := bottom + 1\<rparr>))"

datatype err = none | lost | empty

text \<open>
  \<open>steal()\<close>: the code and the value. When the \<open>compare_exchange_strong\<close> fails another
  thread has moved \<open>m_top\<close>; this call itself writes nothing then.
\<close>

definition steal :: "bool \<Rightarrow> deque \<Rightarrow> (err \<times> task_handle option) \<times> deque" where
  "steal cas_ok d =
     (let topv = m_top d; bottom = m_bottom d
      in if topv < bottom then
           (let tmp = ring_load topv (m_buf d)
            in if \<not> cas_ok then ((lost, None), d)
               else ((none, Some tmp), d\<lparr>m_top := topv + 1\<rparr>))
         else ((empty, None), d))"

definition deque_empty :: "deque \<Rightarrow> bool" where
  "deque_empty d \<longleftrightarrow> m_top d \<ge> m_bottom d"

section \<open>Task frame (frame.hpp)\<close>

definition k_u16_max :: u16 where
  "k_u16_max = 65535"

text \<open>
  \<open>m_eptr\<close> is a \<open>manual_lifetime<std::exception_ptr>\<close>: \<open>None\<close> while it holds no
  exception. \<open>m_parent\<close> is \<open>None\<close> for a root, whose union member is the semaphore.
\<close>

record frame =
  m_eptr :: "error option"
  m_stacklet :: ptr
  m_parent :: "ptr option"
  m_join :: u16
  m_steal :: u16
  m_except :: bool

definition new_frame :: "ptr \<Rightarrow> frame" where
  "new_frame stacklet =
     \<lparr>m_eptr = None, m_stacklet = stacklet, m_parent = None,
      m_join = k_u16_max, m_steal = 0, m_except = False\<rparr>"

definition load_joins :: "memory_order \<Rightarrow> frame \<Rightarrow> u16" where
  "load_joins order f = m_join f"

text \<open>\<open>m_join.fetch_sub(val, order)\<close>: the value before, and the frame after.\<close>

definition fetch_sub_joins :: "u16 \<Rightarrow> memory_order \<Rightarrow> frame \<Rightarrow> u16 \<times> frame" where
  "fetch_sub_joins val order f = (m_join f, f\<lparr>m_join := m_join f - val\<rparr>)"

definition load_steals :: "frame \<Rightarrow> u16" where
  "load_steals f = m_steal f"

definition fetch_add_steal :: "frame \<Rightarrow> u16 \<times> frame" where
  "fetch_add_steal f = (m_steal f, f\<lparr>m_steal := m_steal f + 1\<rparr>)"

definition reset :: "frame \<Rightarrow> frame" where
  "reset f = f\<lparr>m_steal := 0, m_join := k_u16_max\<rparr>"

text \<open>\<open>capture_exception()\<close> with \<open>e\<close> the exception in flight: the first one is kept.\<close>

definition capture_exception :: "error \<Rightarrow> frame \<Rightarrow> frame" where
  "capture_exception e f =
     (let prev = m_except f; f1 = f\<lparr>m_except := True\<rparr>
      in if \<not> prev then f1\<lparr>m_eptr := Some e\<rparr> else f1)"


definition unsafe_has_exception :: "frame \<Rightarrow> bool" where
  "unsafe_has_exception f = m_except f"



section \<open>A worker and the frames it can reach\<close>

text \<open>
  The atomic operations and fences a function performs on a frame are recorded, with
  their memory order, in the order they happen.
\<close>

datatype event =
    ev_fetch_sub_joins ptr u16 memory_order
  | ev_load_joins ptr memory_order
  | ev_atomic_thread_fence memory_order
  | ev_destroy ptr

text \<open>
  The state a worker thread acts on: the live coroutine frames by address, the malloc'ed
  stacklets, and its two thread-local anchors, \<open>tls::stack()\<close> and the deque of
  \<open>tls::context()\<close>. A coroutine is identified with the address \<open>operator new\<close> returned
  for it, which is also what its handle and its \<open>frame *\<close> stand for.
\<close>

record world =
  frames :: "ptr \<rightharpoonup> frame"
  heap :: stacklets
  tls_stack :: stack
  tls_context :: deque
  events :: "event list"

datatype coroutine_handle = coro ptr | noop_coroutine

text \<open>
  \<open>h.destroy()\<close> on a suspended task: the promise's destructor asserts that the worker's
  stack is on the task's stacklet, and \<open>operator delete\<close> gives the frame back with
  \<open>tls::stack()->deallocate(ptr)\<close>.
\<close>

definition destroy :: "ptr \<Rightarrow> world \<Rightarrow> error + world" where
  "destroy c w =
     (case frames w c of
        None \<Rightarrow> Inl assertion_failed
      | Some cf \<Rightarrow>
          if m_fib (tls_stack w) \<noteq> m_stacklet cf then Inl assertion_failed
          else case deallocate c (heap w) (tls_stack w) of
                 Inl e \<Rightarrow> Inl e
               | Inr (h', st') \<Rightarrow>
                   Inr (w\<lparr>frames := (frames w)(c := None), heap := h', tls_stack := st',
                          events := events w @ [ev_destroy c]\<rparr>))"

section \<open>Awaitables (awaitables.hpp)\<close>

text \<open>\<open>try_self_stealing()\<close>\<close>

definition try_self_stealing :: "bool \<Rightarrow> world \<Rightarrow> coroutine_handle \<times> world" where
  "try_self_stealing cas_ok w =
     (case pop cas_ok (tls_context w) of
        (Some eff_stolen, d') \<Rightarrow>
          (case frames w eff_stolen of
             None \<Rightarrow> (coro eff_stolen, w\<lparr>tls_context := d'\<rparr>)
           | Some f \<Rightarrow>
               (coro eff_stolen,
                w\<lparr>tls_context := d', frames := (frames w)(eff_stolen \<mapsto> snd (fetch_add_steal f))\<rparr>))
      | (None, d') \<Rightarrow> (noop_coroutine, w\<lparr>tls_context := d'\<rparr>))"

subsection \<open>fork\<close>

record fork_awaitable =
  child :: "ptr option"
  self :: ptr

text \<open>
  \<open>fork_awaitable::await_suspend\<close>. When \<open>push\<close> throws, the unwinding destroys the local
  \<open>unique_frame stack_child\<close>, whose deleter is \<open>frame->self().destroy()\<close>.
\<close>

definition fork_await_suspend ::
  "bool \<Rightarrow> bool \<Rightarrow> fork_awaitable \<Rightarrow> world \<Rightarrow> (error + coroutine_handle) \<times> fork_awaitable \<times> world" where
  "fork_await_suspend new_ok grow_ok aw w =
     (let stack_child = child aw; aw' = aw\<lparr>child := None\<rparr>
      in case push new_ok grow_ok (self aw) (tls_context w) of
           Inl e \<Rightarrow>
             (if e = terminate then (Inl terminate, aw', w)
              else case stack_child of
                     None \<Rightarrow> (Inl e, aw', w)
                   | Some c \<Rightarrow> (case destroy c w of
                                  Inl e' \<Rightarrow> (Inl e', aw', w)
                                | Inr w' \<Rightarrow> (Inl e, aw', w')))
         | Inr d' \<Rightarrow>
             (case stack_child of
                None \<Rightarrow> (Inl assertion_failed, aw', w\<lparr>tls_context := d'\<rparr>)
              | Some c \<Rightarrow> (Inr (coro c), aw', w\<lparr>tls_context := d'\<rparr>)))"

text \<open>
  What the language does with the result of \<open>await_suspend\<close> of the coroutine \<open>p\<close>, as the
  comment in \<open>fork_awaitable::await_suspend\<close> recalls it: if it throws, the exception is
  caught, the coroutine is resumed and the exception is immediately re-thrown in it;
  otherwise control goes to the handle returned.
\<close>

datatype control =
    transfer_to coroutine_handle
  | resumed_rethrowing ptr error
  | aborted error

definition after_await_suspend :: "ptr \<Rightarrow> error + coroutine_handle \<Rightarrow> control" where
  "after_await_suspend p r =
     (case r of
        Inl e \<Rightarrow> if e = terminate \<or> e = assertion_failed then aborted e else resumed_rethrowing p e
      | Inr h \<Rightarrow> transfer_to h)"

text \<open>\<open>co_await lf::fork(...)(...)\<close> in the task \<open>self aw\<close>, up to the transfer of control.\<close>

definition co_await_fork :: "bool \<Rightarrow> bool \<Rightarrow> fork_awaitable \<Rightarrow> world \<Rightarrow> control \<times> fork_awaitable \<times> world" where
  "co_await_fork new_ok grow_ok aw w =
     (case fork_await_suspend new_ok grow_ok aw w of
        (r, aw', w') \<Rightarrow> (after_await_suspend (self aw) r, aw', w'))"

subsection \<open>Modifiers: sync fork and eager call\<close>

datatype tag = root | call | fork


datatype region = unknown | outside | inside | opening_fork






subsection \<open>join\<close>

text \<open>\<open>join_awaitable::take_stack_reset_frame\<close>\<close>

definition take_stack_reset_frame :: "ptr \<Rightarrow> world \<Rightarrow> error + world" where
  "take_stack_reset_frame slf w =
     (case frames w slf of
        None \<Rightarrow> Inl assertion_failed
      | Some f \<Rightarrow>
          if load_steals f = 0 then Inl assertion_failed
          else case stack_empty (heap w) (tls_stack w) of
                 Inl e \<Rightarrow> Inl e
               | Inr emp \<Rightarrow>
                   if \<not> emp then Inl assertion_failed
                   else case assign_stack (m_stacklet f) (heap w) (tls_stack w) of
                          Inl e \<Rightarrow> Inl e
                        | Inr (h', st') \<Rightarrow>
                            Inr (w\<lparr>heap := h', tls_stack := st',
                                   frames := (frames w)(slf \<mapsto> reset f)\<rparr>))"

text \<open>\<open>join_awaitable::await_ready\<close>; the subtraction and the comparison are on \<open>int\<close>.\<close>

definition join_await_ready :: "ptr \<Rightarrow> world \<Rightarrow> error + (bool \<times> world)" where
  "join_await_ready slf w =
     (case frames w slf of
        None \<Rightarrow> Inl assertion_failed
      | Some f \<Rightarrow>
          if load_steals f = 0 then Inr (True, w)
          else
            let joined = uint k_u16_max - uint (load_joins memory_order_acquire f);
                w1 = w\<lparr>events := events w @ [ev_load_joins slf memory_order_acquire]\<rparr>
            in if uint (load_steals f) = joined then
                 (case take_stack_reset_frame slf w1 of
                    Inl e \<Rightarrow> Inl e
                  | Inr w2 \<Rightarrow> Inr (True, w2))
               else Inr (False, w1))"

text \<open>
  \<open>join_awaitable::await_suspend(task)\<close>. The argument of \<open>fetch_sub_joins\<close> is the \<open>int\<close>
  \<open>k_u16_max - steals\<close> converted to \<open>std::uint16_t\<close>; the comparison is on \<open>int\<close>.
\<close>

definition join_await_suspend :: "bool \<Rightarrow> ptr \<Rightarrow> ptr \<Rightarrow> world \<Rightarrow> error + (coroutine_handle \<times> world)" where
  "join_await_suspend cas_ok slf task w =
     (case frames w slf of
        None \<Rightarrow> Inl assertion_failed
      | Some f \<Rightarrow>
          let steals = load_steals f;
              val = (word_of_int (uint k_u16_max - uint steals) :: u16);
              (joined, f') = fetch_sub_joins val memory_order_release f;
              w1 = w\<lparr>frames := (frames w)(slf \<mapsto> f'),
                     events := events w @ [ev_fetch_sub_joins slf val memory_order_release]\<rparr>
          in if uint steals = uint k_u16_max - uint joined then
               (let w2 = w1\<lparr>events := events w1 @ [ev_atomic_thread_fence memory_order_acquire]\<rparr>
                in case take_stack_reset_frame slf w2 of
                     Inl e \<Rightarrow> Inl e
                   | Inr w3 \<Rightarrow> Inr (coro task, w3))
             else Inr (try_self_stealing cas_ok w1))"


section \<open>Terminal suspension of a forked child (promise.hpp)\<close>

text \<open>
  \<open>detail::final_await_suspend(parent)\<close>, which is \<open>noexcept\<close>: a \<open>bad_alloc\<close> of
  \<open>release()\<close> terminates the program.
\<close>

definition final_await_suspend ::
  "(size_t \<Rightarrow> ptr option) \<Rightarrow> bool \<Rightarrow> ptr \<Rightarrow> world \<Rightarrow> error + (coroutine_handle \<times> world)" where
  "final_await_suspend malloc cas_ok parent w =
     (case pop cas_ok (tls_context w) of
        (Some parent_task, d') \<Rightarrow>
          if parent_task \<noteq> parent then Inl assertion_failed
          else Inr (coro parent, w\<lparr>tls_context := d'\<rparr>)
      | (None, d') \<Rightarrow>
          (case frames w parent of
             None \<Rightarrow> Inl assertion_failed
           | Some pf \<Rightarrow>
               (case heap w (m_fib (tls_stack w)) of
                  None \<Rightarrow> Inl assertion_failed
                | Some tp \<Rightarrow>
                    if \<not> is_top (heap w) tp then Inl assertion_failed
                    else
                      let p_stacklet = m_stacklet pf;
                          c_stacklet = m_fib (tls_stack w);
                          (joined, pf') = fetch_sub_joins 1 memory_order_release pf;
                          w1 = w\<lparr>tls_context := d',
                                 frames := (frames w)(parent \<mapsto> pf'),
                                 events := events w @ [ev_fetch_sub_joins parent 1 memory_order_release]\<rparr>
                      in if joined = 1 then
                           (let w2 = w1\<lparr>events := events w1 @ [ev_atomic_thread_fence memory_order_acquire]\<rparr>
                            in if p_stacklet \<noteq> c_stacklet then
                                 (case stack_empty (heap w2) (tls_stack w2) of
                                    Inl e \<Rightarrow> Inl e
                                  | Inr emp \<Rightarrow>
                                      if \<not> emp then Inl assertion_failed
                                      else case assign_stack p_stacklet (heap w2) (tls_stack w2) of
                                             Inl e \<Rightarrow> Inl e
                                           | Inr (h', st') \<Rightarrow>
                                               Inr (coro parent,
                                                    w2\<lparr>heap := h', tls_stack := st',
                                                       frames := (frames w2)(parent \<mapsto> reset pf')\<rparr>))
                               else Inr (coro parent, w2\<lparr>frames := (frames w2)(parent \<mapsto> reset pf')\<rparr>))
                         else if p_stacklet = c_stacklet then
                           (case release malloc (heap w1) (tls_stack w1) of
                              Inl e \<Rightarrow> Inl (if e = bad_alloc then terminate else e)
                            | Inr (_, h', st') \<Rightarrow> Inr (noop_coroutine, w1\<lparr>heap := h', tls_stack := st'\<rparr>))
                         else Inr (noop_coroutine, w1))))"

section \<open>Statements of the specification about frames, and example states\<close>

text \<open>
  What the specification says a forked child does at its terminal suspension, for a
  result \<open>res\<close>: if the pop yields the parent's continuation, transfer to the parent
  with nothing else changed; otherwise decrement the parent's join counter by one with
  release ordering and, if the value before was 1, resume the parent with the worker's
  stack on the parent's stacklet; in all other cases release the worker's stack and
  return to the scheduler loop.
\<close>

definition final_suspend_claim ::
  "(size_t \<Rightarrow> ptr option) \<Rightarrow> bool \<Rightarrow> ptr \<Rightarrow> world \<Rightarrow> error + (coroutine_handle \<times> world) \<Rightarrow> bool" where
  "final_suspend_claim malloc cas_ok parent w res =
     (case pop cas_ok (tls_context w) of
        (Some t, d') \<Rightarrow> res = Inr (coro parent, w\<lparr>tls_context := d'\<rparr>)
      | (None, d') \<Rightarrow>
          (case frames w parent of
             None \<Rightarrow> True
           | Some pf \<Rightarrow>
               (let w1 = w\<lparr>tls_context := d',
                          frames := (frames w)(parent \<mapsto> pf\<lparr>m_join := m_join pf - 1\<rparr>),
                          events := events w @ [ev_fetch_sub_joins parent 1 memory_order_release]\<rparr>
                in if m_join pf = 1 then
                     (\<exists>w'. res = Inr (coro parent, w') \<and> m_fib (tls_stack w') = m_stacklet pf)
                   else
                     (case release malloc (heap w1) (tls_stack w1) of
                        Inl e \<Rightarrow> res = Inl terminate
                      | Inr (_, h', st') \<Rightarrow>
                          res = Inr (noop_coroutine, w1\<lparr>heap := h', tls_stack := st'\<rparr>)))))"


text \<open>
  Example states. The task \<open>P\<close> has its frame at 4144, the first allocation on the stacklet
  at 4096; a child of 64 bytes would follow it at 4208. A second, empty stacklet at 8192
  is the stack of a worker that stole \<open>P\<close>.
\<close>

definition ex_frame :: "u16 \<Rightarrow> u16 \<Rightarrow> error option \<Rightarrow> frame" where
  "ex_frame j s e =
     \<lparr>m_eptr = e, m_stacklet = 4096, m_parent = None, m_join = j, m_steal = s,
      m_except = (e \<noteq> None)\<rparr>"

definition ex_heap :: stacklets where
  "ex_heap =
     [4096 \<mapsto> \<lparr>m_lo = 4144, m_sp = 4208, m_hi = 8144, m_prev = None, m_next = None\<rparr>,
      8192 \<mapsto> \<lparr>m_lo = 8240, m_sp = 8240, m_hi = 12240, m_prev = None, m_next = None\<rparr>]"

text \<open>
  The same, but with a third stacklet, in use, chained after the one \<open>P\<close> lives on: the
  stacklet at 4096 is not the top of its chain.
\<close>

definition ex_heap_below :: stacklets where
  "ex_heap_below =
     [4096 \<mapsto> \<lparr>m_lo = 4144, m_sp = 4208, m_hi = 8144, m_prev = None, m_next = Some 20480\<rparr>,
      8192 \<mapsto> \<lparr>m_lo = 8240, m_sp = 8240, m_hi = 12240, m_prev = None, m_next = None\<rparr>,
      20480 \<mapsto> \<lparr>m_lo = 20528, m_sp = 20592, m_hi = 24528, m_prev = Some 4096, m_next = None\<rparr>]"

text \<open>The worker that stole \<open>P\<close>: its stack is the empty one, its deque is empty.\<close>

definition ex_thief :: "u16 \<Rightarrow> u16 \<Rightarrow> error option \<Rightarrow> world" where
  "ex_thief j s e =
     \<lparr>frames = [4144 \<mapsto> ex_frame j s e], heap = ex_heap, tls_stack = \<lparr>m_fib = 8192\<rparr>,
      tls_context = new_deque 4, events = []\<rparr>"

text \<open>
  The worker that owns \<open>P\<close> and has just built the child \<open>C\<close> at 4208 on the same
  stacklet; its deque, of capacity 1, already holds one task (the address 1000), so the
  next push has to grow the buffer.
\<close>

definition ex_owner :: world where
  "ex_owner =
     \<lparr>frames = [4144 \<mapsto> ex_frame k_u16_max 0 None, 4208 \<mapsto> (new_frame 4096)\<lparr>m_parent := Some 4144\<rparr>],
      heap = [4096 \<mapsto> \<lparr>m_lo = 4144, m_sp = 4272, m_hi = 8144, m_prev = None, m_next = None\<rparr>],
      tls_stack = \<lparr>m_fib = 4096\<rparr>,
      tls_context = \<lparr>m_top = 0, m_bottom = 1,
                     m_buf = \<lparr>m_cap = 1, m_mask = 0, m_slots = [1000]\<rparr>, m_garbage = []\<rparr>,
      events = []\<rparr>"

section \<open>Futures (sync_wait.hpp)\<close>

datatype future_state = no_wait | ready | retrievd

text \<open>
  The shared state of a future: the \<open>try_eventually\<close> it derives from is empty (\<open>None\<close>),
  or holds the task's exception or its value; \<open>sem\<close> is the count of the binary
  semaphore, constructed with 0.
\<close>

record 'r future_shared_state =
  content :: "(error + 'r) option"
  sem :: nat
  status :: future_state

definition new_shared_state :: "'r future_shared_state" where
  "new_shared_state = \<lparr>content = None, sem = 0, status = no_wait\<rparr>"

text \<open>A future is its \<open>m_heap\<close>, a pointer into the shared states.\<close>

record future =
  m_heap :: "ptr option"

type_synonym 'r shared_states = "ptr \<rightharpoonup> 'r future_shared_state"

text \<open>
  A call that can wait on the semaphore has three outcomes: it returns, it throws, or it
  blocks, which leaves everything as it was until the semaphore is released.
\<close>

datatype ('a, 's) outcome = returns 'a 's | throws error 's | blocks

text \<open>\<open>std::binary_semaphore::acquire\<close>: the new count, \<open>None\<close> while the count is 0.\<close>

definition sem_acquire :: "nat \<Rightarrow> nat option" where
  "sem_acquire s = (if s = 0 then None else Some (s - 1))"

definition valid :: "future \<Rightarrow> bool" where
  "valid fut \<longleftrightarrow> m_heap fut \<noteq> None"

text \<open>\<open>future::~future()\<close>\<close>

definition future_dtor :: "future \<Rightarrow> 'r shared_states \<Rightarrow> (unit, 'r shared_states) outcome" where
  "future_dtor fut st =
     (case m_heap fut of
        None \<Rightarrow> returns () st
      | Some p \<Rightarrow>
          (case st p of
             None \<Rightarrow> throws assertion_failed st
           | Some ss \<Rightarrow>
               if status ss = no_wait then
                 (case sem_acquire (sem ss) of
                    None \<Rightarrow> blocks
                  | Some s' \<Rightarrow> returns () (st(p \<mapsto> ss\<lparr>sem := s'\<rparr>)))
               else returns () st))"

text \<open>\<open>future::detach()\<close>\<close>

definition detach :: "future \<Rightarrow> future" where
  "detach fut = fut\<lparr>m_heap := None\<rparr>"

text \<open>\<open>future::wait()\<close>\<close>

definition future_wait :: "future \<Rightarrow> 'r shared_states \<Rightarrow> (unit, 'r shared_states) outcome" where
  "future_wait fut st =
     (case m_heap fut of
        None \<Rightarrow> throws broken_future st
      | Some p \<Rightarrow>
          (case st p of
             None \<Rightarrow> throws assertion_failed st
           | Some ss \<Rightarrow>
               if status ss = no_wait then
                 (case sem_acquire (sem ss) of
                    None \<Rightarrow> blocks
                  | Some s' \<Rightarrow> returns () (st(p \<mapsto> ss\<lparr>sem := s', status := ready\<rparr>)))
               else returns () st))"

text \<open>\<open>future::get()\<close>; the value is moved out of the shared state.\<close>

definition future_get :: "future \<Rightarrow> 'r shared_states \<Rightarrow> ('r, 'r shared_states) outcome" where
  "future_get fut st =
     (case future_wait fut st of
        blocks \<Rightarrow> blocks
      | throws e st' \<Rightarrow> throws e st'
      | returns _ st1 \<Rightarrow>
          (case m_heap fut of
             None \<Rightarrow> throws assertion_failed st1
           | Some p \<Rightarrow>
               (case st1 p of
                  None \<Rightarrow> throws assertion_failed st1
                | Some ss \<Rightarrow>
                    if status ss = retrievd then throws empty_future st1
                    else
                      let st2 = st1(p \<mapsto> ss\<lparr>status := retrievd\<rparr>)
                      in case content ss of
                           Some (Inl e) \<Rightarrow> throws e st2
                         | Some (Inr v) \<Rightarrow> returns v st2
                         | None \<Rightarrow> throws assertion_failed st2)))"

text \<open>
  The other side: the root task stores its result in the shared state and, at its
  final suspension, releases the semaphore.
\<close>

definition root_task_finishes :: "ptr \<Rightarrow> error + 'r \<Rightarrow> 'r shared_states \<Rightarrow> 'r shared_states" where
  "root_task_finishes p r st =
     (case st p of
        None \<Rightarrow> st
      | Some ss \<Rightarrow> st(p \<mapsto> ss\<lparr>content := Some r, sem := sem ss + 1\<rparr>))"

text \<open>
  A history of a future between \<open>schedule\<close> and its destructor: calls of \<open>wait\<close> and \<open>get\<close>
  by the thread that owns it, and the moment the root task finishes. The state of a
  history is the number of calls of \<open>wait\<close> and \<open>get\<close> that have completed (got past the
  semaphore), the call the owner is blocked in, if any, and the shared states. A blocked
  call completes when the task finishes; while it is blocked the owner calls nothing.
\<close>

datatype 'r future_event = call_wait | call_get | task_done "error + 'r"

definition perform :: "future \<Rightarrow> 'r future_event \<Rightarrow> 'r shared_states \<Rightarrow> (unit, 'r shared_states) outcome" where
  "perform fut ev st =
     (case ev of
        call_wait \<Rightarrow> future_wait fut st
      | call_get \<Rightarrow> (case future_get fut st of
                      returns _ st' \<Rightarrow> returns () st'
                    | throws e st' \<Rightarrow> throws e st'
                    | blocks \<Rightarrow> blocks)
      | task_done _ \<Rightarrow> returns () st)"

definition owner_calls ::
  "future \<Rightarrow> 'r future_event \<Rightarrow> nat \<times> 'r future_event option \<times> 'r shared_states \<Rightarrow>
   nat \<times> 'r future_event option \<times> 'r shared_states" where
  "owner_calls fut ev s =
     (case s of (n, pending, st) \<Rightarrow>
        (case perform fut ev st of
           returns _ st' \<Rightarrow> (Suc n, None, st')
         | throws e st' \<Rightarrow> (if valid fut then Suc n else n, None, st')
         | blocks \<Rightarrow> (n, Some ev, st)))"

fun future_step ::
  "future \<Rightarrow> 'r future_event \<Rightarrow> nat \<times> 'r future_event option \<times> 'r shared_states \<Rightarrow>
   nat \<times> 'r future_event option \<times> 'r shared_states" where
  "future_step fut (task_done r) (n, pending, st) =
     (case m_heap fut of
        None \<Rightarrow> (n, pending, st)
      | Some p \<Rightarrow>
          (case pending of
             None \<Rightarrow> (n, None, root_task_finishes p r st)
           | Some ev \<Rightarrow> owner_calls fut ev (n, None, root_task_finishes p r st)))"
| "future_step fut ev (n, pending, st) =
     (case pending of
        None \<Rightarrow> owner_calls fut ev (n, None, st)
      | Some _ \<Rightarrow> (n, pending, st))"

definition history ::
  "future \<Rightarrow> 'r future_event list \<Rightarrow> 'r shared_states \<Rightarrow>
   nat \<times> 'r future_event option \<times> 'r shared_states" where
  "history fut evs st = fold (future_step fut) evs (0, None, st)"

definition task_finished :: "'r future_event list \<Rightarrow> bool" where
  "task_finished evs \<longleftrightarrow> (\<exists>r. task_done r \<in> set evs)"

text \<open>
  What holds along every history of a future with a shared state at \<open>p\<close>, where \<open>fin\<close> says
  whether the task has finished: the status is \<open>no_wait\<close> exactly while no call has
  completed; until then the semaphore is available exactly when the task has finished;
  and the owner is blocked only in a call, before any call completed and before the
  task finished.
\<close>

definition is_call :: "'r future_event \<Rightarrow> bool" where
  "is_call ev \<longleftrightarrow> ev = call_wait \<or> ev = call_get"

definition future_inv :: "ptr \<Rightarrow> bool \<Rightarrow> nat \<times> 'r future_event option \<times> 'r shared_states \<Rightarrow> bool" where
  "future_inv p fin s =
     (case s of (n, pending, st) \<Rightarrow>
        (\<exists>ss. st p = Some ss \<and> (status ss = no_wait \<longleftrightarrow> n = 0) \<and>
              (n = 0 \<longrightarrow> (0 < sem ss \<longleftrightarrow> fin)) \<and>
              (\<forall>ev. pending = Some ev \<longrightarrow> n = 0 \<and> \<not> fin \<and> is_call ev)))"

section \<open>Steal target selection (numa_context.hpp)\<close>

text \<open>
  A context is named by a number; \<open>contexts\<close> gives the deque of the worker context behind
  each. The weights are \<open>double\<close>s: a \<open>double\<close> is the real number it stands for, and \<open>fl\<close>
  is the rounding that every conversion to \<open>double\<close> and every operation on \<open>double\<close>s ends
  with.
\<close>

type_synonym ctx = nat

record numa_context =
  m_dist :: "real list"
  m_close :: "ctx list"
  m_neigh :: "ctx list"

definition k_min_steal_attempts :: nat where
  "k_min_steal_attempts = 1024"

definition k_steal_attempts_per_target :: nat where
  "k_steal_attempts_per_target = 32"

text \<open>
  The part of \<open>init_worker_and_bind\<close> that reads the topology: \<open>neighbors ! i\<close> is the
  cohort at hop distance \<open>i\<close>, and \<open>neighbors ! 0\<close> holds the worker itself. The loop
  pushes, for every context of every cohort from 1 on, the weight \<open>1. / (n * I * I)\<close>, with
  \<open>n\<close> and \<open>I\<close> the size of the cohort and the distance converted to \<open>double\<close>, and the
  context. \<open>m_dist\<close> is the \<open>std::discrete_distribution\<close> over these weights.
\<close>

definition cohort_weight :: "(real \<Rightarrow> real) \<Rightarrow> ctx list list \<Rightarrow> nat \<Rightarrow> real" where
  "cohort_weight fl neighbors i =
     (let n = fl (of_nat (length (neighbors ! i)));
          I = fl (of_nat i)
      in fl (1 / fl (fl (n * I) * I)))"

definition weighted_neighbors :: "(real \<Rightarrow> real) \<Rightarrow> ctx list list \<Rightarrow> (real \<times> ctx) list" where
  "weighted_neighbors fl neighbors =
     concat (map (\<lambda>i. map (\<lambda>c. (cohort_weight fl neighbors i, c)) (neighbors ! i))
                 [1..<length neighbors])"

definition init_worker_and_bind :: "(real \<Rightarrow> real) \<Rightarrow> ctx list list \<Rightarrow> numa_context" where
  "init_worker_and_bind fl neighbors =
     \<lparr>m_dist = map fst (weighted_neighbors fl neighbors),
      m_close = (if length neighbors > 1 then neighbors ! 1 else []),
      m_neigh = map snd (weighted_neighbors fl neighbors)\<rparr>"

text \<open>
  The loop body \<open>LF_RETURN_OR_CONTINUE\<close> over a list of victims: one \<open>try_steal()\<close> on the
  deque of each in turn, returning the task of the first whose code is \<open>none\<close>; \<open>lost\<close> and
  \<open>empty\<close> both continue. \<open>cas k\<close> is the outcome of the compare-exchange of the \<open>k\<close>-th
  steal. The result lists the victims probed.
\<close>

fun steal_each ::
  "(nat \<Rightarrow> bool) \<Rightarrow> nat \<Rightarrow> ctx list \<Rightarrow> (ctx \<Rightarrow> deque) \<Rightarrow>
   task_handle option \<times> (ctx \<Rightarrow> deque) \<times> ctx list" where
  "steal_each cas k [] contexts = (None, contexts, [])"
| "steal_each cas k (v # vs) contexts =
     (case steal (cas k) (contexts v) of
        ((none, task), d') \<Rightarrow> (task, contexts(v := d'), [v])
      | ((lost, _), d') \<Rightarrow>
          (case steal_each cas (Suc k) vs (contexts(v := d')) of
             (r, contexts', probed) \<Rightarrow> (r, contexts', v # probed))
      | ((empty, _), d') \<Rightarrow>
          (case steal_each cas (Suc k) vs (contexts(v := d')) of
             (r, contexts', probed) \<Rightarrow> (r, contexts', v # probed)))"

text \<open>
  \<open>numa_context::try_steal()\<close>. The random choices are parameters: \<open>shuffled\<close> is the order
  \<open>std::ranges::shuffle\<close> leaves \<open>m_close\<close> in, and \<open>draw i\<close> is the \<open>i\<close>-th value of
  \<open>m_dist(m_rng)\<close>. The number of attempts is computed in \<open>std::size_t\<close>.
\<close>

definition try_steal ::
  "ctx list \<Rightarrow> (nat \<Rightarrow> nat) \<Rightarrow> (nat \<Rightarrow> bool) \<Rightarrow> numa_context \<Rightarrow> (ctx \<Rightarrow> deque) \<Rightarrow>
   task_handle option \<times> numa_context \<times> (ctx \<Rightarrow> deque) \<times> ctx list" where
  "try_steal shuffled draw cas nc contexts =
     (if m_neigh nc = [] then (None, nc, contexts, [])
      else
        let nc' = nc\<lparr>m_close := shuffled\<rparr>
        in case steal_each cas 0 (m_close nc') contexts of
             (Some task, contexts', probed) \<Rightarrow> (Some task, nc', contexts', probed)
           | (None, contexts', probed) \<Rightarrow>
               (let attempts = (k_min_steal_attempts +
                                k_steal_attempts_per_target * length (m_neigh nc')) mod 2 ^ 64
                in case steal_each cas (length probed)
                          (map (\<lambda>i. m_neigh nc' ! draw i) [0..<attempts]) contexts' of
                     (r, contexts'', probed') \<Rightarrow> (r, nc', contexts'', probed @ probed')))"

text \<open>
  The probes of a steal attempt as the specification lists them: the shuffled first-hop
  cohort, each member once, followed by \<open>1024 + 32 * |neighbors|\<close> draws from the weighted
  list. A probe succeeds when its single \<open>steal()\<close> returns the code \<open>none\<close>.
\<close>

definition steal_plan :: "ctx list \<Rightarrow> (nat \<Rightarrow> nat) \<Rightarrow> numa_context \<Rightarrow> ctx list" where
  "steal_plan shuffled draw nc =
     shuffled @ map (\<lambda>i. m_neigh nc ! draw i) [0..<1024 + 32 * length (m_neigh nc)]"

definition probe_succeeds :: "(nat \<Rightarrow> bool) \<Rightarrow> (ctx \<Rightarrow> deque) \<Rightarrow> ctx list \<Rightarrow> nat \<Rightarrow> bool" where
  "probe_succeeds cas contexts plan k \<longleftrightarrow> fst (fst (steal (cas k) (contexts (plan ! k)))) = none"

text \<open>
  The weight the specification gives a neighbor at hop distance \<open>i\<close>, and what it means for
  a \<open>double\<close> \<open>w\<close> to be that weight up to the rounding of the five conversions and
  operations that compute it, each of relative error at most \<open>u\<close>.
\<close>

definition hop_weight :: "ctx list list \<Rightarrow> nat \<Rightarrow> real" where
  "hop_weight neighbors i = 1 / (of_nat i ^ 2 * of_nat (length (neighbors ! i)))"

definition weight_near :: "real \<Rightarrow> real \<Rightarrow> real \<Rightarrow> bool" where
  "weight_near u exact w \<longleftrightarrow>
     exact * ((1 - u) / (1 + u) ^ 5) \<le> w \<and> w \<le> exact * ((1 + u) / (1 - u) ^ 5)"

text \<open>\<open>x\<close> lies between the multiples \<open>l\<close> and \<open>h\<close> of \<open>a\<close>.\<close>

definition scaled_between :: "real \<Rightarrow> real \<Rightarrow> real \<Rightarrow> real \<Rightarrow> bool" where
  "scaled_between l h a x \<longleftrightarrow> l * a \<le> x \<and> x \<le> h * a"

text \<open>
  A \<open>std::discrete_distribution\<close> returns an index of its weights, and one of weight zero
  with probability zero.
\<close>

definition in_support :: "real list \<Rightarrow> nat \<Rightarrow> bool" where
  "in_support ws k \<longleftrightarrow> k < length ws \<and> 0 < ws ! k"

text \<open>
  The contexts a worker can be left with by \<open>init_worker_and_bind\<close> and any number of
  steal attempts: only the order of \<open>m_close\<close> changes.
\<close>

definition bound_to :: "(real \<Rightarrow> real) \<Rightarrow> ctx list list \<Rightarrow> numa_context \<Rightarrow> bool" where
  "bound_to fl neighbors nc \<longleftrightarrow>
     m_dist nc = m_dist (init_worker_and_bind fl neighbors) \<and>
     m_neigh nc = m_neigh (init_worker_and_bind fl neighbors) \<and>
     mset (m_close nc) = mset (m_close (init_worker_and_bind fl neighbors))"

text \<open>A topology of three cohorts and the deques behind its contexts, for the examples.\<close>

definition ex_topology :: "ctx list list" where
  "ex_topology = [[0], [1, 5], [2, 3, 4]]"

definition ex_contexts :: "ctx \<Rightarrow> deque" where
  "ex_contexts c =
     (if c = 2 then \<lparr>m_top = 0, m_bottom = 1,
                      m_buf = \<lparr>m_cap = 1, m_mask = 0, m_slots = [1000]\<rparr>, m_garbage = []\<rparr>
      else new_deque 1)"

section \<open>Lazy pool: event count and shared counters (event_count.hpp, lazy_pool.hpp)\<close>

subsection \<open>Event count\<close>

text \<open>
  \<open>event_count::m_val\<close> is one 64-bit word: the epoch in its upper 32 bits, the number of
  waiters in its lower 32 bits. \<open>epoch()\<close> is the view of the upper half as an
  \<open>atomic<uint32_t>\<close>.
\<close>

type_synonym u32 = "32 word"

record event_count =
  m_val :: "64 word"

definition k_add_waiter :: "64 word" where
  "k_add_waiter = 1"

definition k_sub_waiter :: "64 word" where
  "k_sub_waiter = - 1"

definition k_epoch_shift :: nat where
  "k_epoch_shift = 32"

definition k_add_epoch :: "64 word" where
  "k_add_epoch = push_bit k_epoch_shift 1"

definition k_waiter_mask :: "64 word" where
  "k_waiter_mask = k_add_epoch - 1"

definition epoch :: "event_count \<Rightarrow> u32" where
  "epoch ec = ucast (drop_bit k_epoch_shift (m_val ec))"

text \<open>
  \<open>notify_one()\<close> and \<open>notify_all()\<close>: \<open>m_val.fetch_add(k_add_epoch)\<close>, and
  \<open>epoch()->notify_one()\<close> (or \<open>notify_all()\<close>) if the value before had waiters; the
  boolean says whether that call is made.
\<close>

definition notify_one :: "event_count \<Rightarrow> bool \<times> event_count" where
  "notify_one ec = (m_val ec AND k_waiter_mask \<noteq> 0, ec\<lparr>m_val := m_val ec + k_add_epoch\<rparr>)"

definition notify_all :: "event_count \<Rightarrow> bool \<times> event_count" where
  "notify_all ec = (m_val ec AND k_waiter_mask \<noteq> 0, ec\<lparr>m_val := m_val ec + k_add_epoch\<rparr>)"

text \<open>\<open>prepare_wait()\<close>: the key is the epoch of the value before the waiter was added.\<close>

definition prepare_wait :: "event_count \<Rightarrow> u32 \<times> event_count" where
  "prepare_wait ec =
     (ucast (drop_bit k_epoch_shift (m_val ec)), ec\<lparr>m_val := m_val ec + k_add_waiter\<rparr>)"

text \<open>
  \<open>cancel_wait()\<close>, and the second half of \<open>wait(key)\<close>: \<open>m_val.fetch_add(k_sub_waiter)\<close>
  with \<open>LF_ASSERT((prev & k_waiter_mask) != 0)\<close>.
\<close>

definition cancel_wait :: "event_count \<Rightarrow> error + event_count" where
  "cancel_wait ec =
     (if m_val ec AND k_waiter_mask = 0 then Inl assertion_failed
      else Inr (ec\<lparr>m_val := m_val ec + k_sub_waiter\<rparr>))"

text \<open>
  The first half of \<open>wait(key)\<close>, \<open>epoch()->wait(key)\<close>, returns only once the epoch is no
  longer the key.
\<close>

definition wait_returns :: "u32 \<Rightarrow> event_count \<Rightarrow> bool" where
  "wait_returns key ec \<longleftrightarrow> epoch ec \<noteq> key"

subsection \<open>Shared variables\<close>

text \<open>
  \<open>lazy_vars\<close>: the \<open>stop\<close> flag of \<open>busy_vars\<close>, the count of active workers and, for each
  numa domain, the count of thieves and the notifier.
\<close>

record fat_counters =
  thief :: "64 word"
  notifier :: event_count

record lazy_vars =
  stop :: bool
  active :: "64 word"
  numa :: "fat_counters list"

definition on_domain :: "nat \<Rightarrow> (fat_counters \<Rightarrow> fat_counters) \<Rightarrow> lazy_vars \<Rightarrow> lazy_vars" where
  "on_domain i f v = v\<lparr>numa := (numa v)[i := f (numa v ! i)]\<rparr>"

definition domain_notify_one :: "nat \<Rightarrow> lazy_vars \<Rightarrow> lazy_vars" where
  "domain_notify_one i v = on_domain i (\<lambda>c. c\<lparr>notifier := snd (notify_one (notifier c))\<rparr>) v"

definition domain_notify_all :: "nat \<Rightarrow> lazy_vars \<Rightarrow> lazy_vars" where
  "domain_notify_all i v = on_domain i (\<lambda>c. c\<lparr>notifier := snd (notify_all (notifier c))\<rparr>) v"

definition thief_fetch_add :: "nat \<Rightarrow> lazy_vars \<Rightarrow> lazy_vars" where
  "thief_fetch_add i v = on_domain i (\<lambda>c. c\<lparr>thief := thief c + 1\<rparr>) v"

definition thief_fetch_sub :: "nat \<Rightarrow> lazy_vars \<Rightarrow> lazy_vars" where
  "thief_fetch_sub i v = on_domain i (\<lambda>c. c\<lparr>thief := thief c - 1\<rparr>) v"

subsection \<open>\<open>lazy_vars::thief_work_sleep\<close> as one call\<close>

text \<open>
  The atomic operations of one call, in order, with the values they return. Between any
  two of them the other threads may change the shared variables: \<open>env k\<close> is what they do
  before the \<open>k\<close>-th operation of this call.
\<close>

datatype lazy_event =
    ev_fetch_sub_thief nat "64 word"
  | ev_notify_one nat
  | ev_fetch_add_active "64 word"
  | ev_load_thief nat "64 word"
  | ev_resume task_handle
  | ev_fetch_sub_active "64 word"

type_synonym interference = "nat \<Rightarrow> lazy_vars \<Rightarrow> lazy_vars"

text \<open>
  The loop \<open>for (auto &&domain : numa)\<close>: a load of the domain's thief count, and a
  \<open>notify_one()\<close> if it is zero.
\<close>

fun scan_domains ::
  "interference \<Rightarrow> nat \<Rightarrow> nat list \<Rightarrow> lazy_vars \<Rightarrow> nat \<times> lazy_vars \<times> lazy_event list" where
  "scan_domains env k [] v = (k, v, [])"
| "scan_domains env k (j # js) v =
     (let v1 = env k v; t = thief (numa v1 ! j)
      in if t = 0 then
           (case scan_domains env (k + 2) js (domain_notify_one j (env (k + 1) v1)) of
              (k', v', evs) \<Rightarrow> (k', v', ev_load_thief j t # ev_notify_one j # evs))
         else
           (case scan_domains env (k + 1) js v1 of
              (k', v', evs) \<Rightarrow> (k', v', ev_load_thief j t # evs)))"

definition thief_work_sleep ::
  "interference \<Rightarrow> task_handle \<Rightarrow> nat \<Rightarrow> lazy_vars \<Rightarrow> lazy_vars \<times> lazy_event list" where
  "thief_work_sleep env handle tid v =
     (let v0 = env 0 v;
          t = thief (numa v0 ! tid);
          v1 = thief_fetch_sub tid v0;
          (k1, v2, evs1) =
            (if t = 1 then (2, domain_notify_one tid (env 1 v1), [ev_notify_one tid])
             else (1, v1, []));
          v3 = env k1 v2;
          a = active v3;
          v4 = v3\<lparr>active := a + 1\<rparr>;
          (k2, v5, evs2) =
            (if a = 0 then scan_domains env (k1 + 1) [0..<length (numa v4)] v4
             else (k1 + 1, v4, []));
          v6 = env k2 v5;
          v7 = env (k2 + 1) v6;
          a' = active v7
      in (v7\<lparr>active := a' - 1\<rparr>,
          [ev_fetch_sub_thief tid t] @ evs1 @ [ev_fetch_add_active a] @ evs2 @
          [ev_resume handle, ev_fetch_sub_active a']))"

text \<open>
  The specification's wording: when the increment raises \<open>A\<close> from 0, one thread is
  notified in every numa domain.
\<close>

definition notifies_every_domain :: "lazy_vars \<Rightarrow> lazy_event list \<Rightarrow> bool" where
  "notifies_every_domain v evs \<longleftrightarrow>
     (ev_fetch_add_active 0 \<in> set evs \<longrightarrow>
        list_all (\<lambda>j. ev_notify_one j \<in> set (dropWhile (\<lambda>e. e \<noteq> ev_fetch_add_active 0) evs))
                 [0..<length (numa v)])"

text \<open>What the call does: the log of its operations, given the values they return.\<close>

definition thief_work_sleep_log ::
  "task_handle \<Rightarrow> nat \<Rightarrow> nat \<Rightarrow> 64 word \<Rightarrow> 64 word \<Rightarrow> (nat \<Rightarrow> 64 word) \<Rightarrow> 64 word \<Rightarrow>
   lazy_event list" where
  "thief_work_sleep_log handle tid n t a r a' =
     ev_fetch_sub_thief tid t # (if t = 1 then [ev_notify_one tid] else []) @
     ev_fetch_add_active a #
     (if a = 0 then
        concat (map (\<lambda>j. ev_load_thief j (r j) # (if r j = 0 then [ev_notify_one j] else []))
                    [0..<n])
      else []) @
     [ev_resume handle, ev_fetch_sub_active a']"

text \<open>
  What each operation of the log does to the shared variables, or \<open>None\<close> if the value the
  log gives for it is not the one the variables hold; and the whole log replayed, with the
  other threads acting before each operation.
\<close>

fun effect :: "lazy_event \<Rightarrow> lazy_vars \<Rightarrow> lazy_vars option" where
  "effect (ev_fetch_sub_thief i t) v =
     (if thief (numa v ! i) = t
      then Some (v\<lparr>numa := (numa v)[i := (numa v ! i)\<lparr>thief := t - 1\<rparr>]\<rparr>) else None)"
| "effect (ev_notify_one i) v =
     Some (v\<lparr>numa := (numa v)[i := (numa v ! i)
              \<lparr>notifier := \<lparr>m_val = m_val (notifier (numa v ! i)) + 4294967296\<rparr>\<rparr>]\<rparr>)"
| "effect (ev_fetch_add_active a) v = (if active v = a then Some (v\<lparr>active := a + 1\<rparr>) else None)"
| "effect (ev_load_thief i t) v = (if thief (numa v ! i) = t then Some v else None)"
| "effect (ev_resume h) v = Some v"
| "effect (ev_fetch_sub_active a) v = (if active v = a then Some (v\<lparr>active := a - 1\<rparr>) else None)"

fun replay :: "interference \<Rightarrow> nat \<Rightarrow> lazy_event list \<Rightarrow> lazy_vars \<Rightarrow> lazy_vars option" where
  "replay env k [] v = Some v"
| "replay env k (e # es) v =
     (case effect e (env k v) of None \<Rightarrow> None | Some v' \<Rightarrow> replay env (Suc k) es v')"

definition ex_vars :: lazy_vars where
  "ex_vars = \<lparr>stop = False, active = 0,
              numa = [\<lparr>thief = 1, notifier = \<lparr>m_val = 0\<rparr>\<rparr>,
                      \<lparr>thief = 2, notifier = \<lparr>m_val = 0\<rparr>\<rparr>]\<rparr>"

chapter \<open>Theorems\<close>

section \<open>Segmented stack: allocation\<close>

lemma and_not_mask_push_drop:
  "(w :: 'a::len word) AND NOT (mask n) = push_bit n (drop_bit n w)"
  by (rule bit_eqI) (auto simp add: bit_simps)

lemma unat_and_not_mask:
  "unat ((w :: 'a::len word) AND NOT (mask n)) = (unat w div 2 ^ n) * 2 ^ n"
proof -
  have "unat (push_bit n (drop_bit n w)) = take_bit LENGTH('a) (push_bit n (drop_bit n (unat w)))"
    by (simp add: unsigned_push_bit_eq unat_drop_bit_eq)
  also have "\<dots> = push_bit n (drop_bit n (unat w))"
  proof (rule take_bit_nat_eq_self)
    have "push_bit n (drop_bit n (unat w)) \<le> unat w"
      by (simp add: push_bit_eq_mult drop_bit_eq_div)
    also have "\<dots> < 2 ^ LENGTH('a)" by simp
    finally show "push_bit n (drop_bit n (unat w)) < 2 ^ LENGTH('a)" .
  qed
  finally show ?thesis
    by (simp add: and_not_mask_push_drop push_bit_eq_mult drop_bit_eq_div)
qed

lemma ext_size_unat:
  assumes "unat (x :: size_t) + 15 < 2 ^ 64"
  shows "unat ((x + k_new_align - 1) AND NOT (k_new_align - 1)) = rounded_up_to 16 (unat x)"
proof -
  have a: "x + k_new_align - 1 = x + 15" by (simp add: k_new_align_def)
  have b: "k_new_align - 1 = mask 4" by (simp add: k_new_align_def mask_eq_exp_minus_1)
  have c: "unat (x + 15) = unat x + 15"
    using assms by (simp add: unat_add_lem [THEN iffD1])
  have "unat ((x + 15) AND NOT (mask 4)) = (unat (x + 15) div 2 ^ 4) * 2 ^ 4"
    by (rule unat_and_not_mask)
  then show ?thesis
    unfolding a b c by (simp add: rounded_up_to_def)
qed

lemma page_round_unat:
  assumes "unat (x :: size_t) + 4095 < 2 ^ 64"
  shows "unat ((x + 4096 - 1) AND NOT (4096 - 1)) = rounded_up_to 4096 (unat x)"
proof -
  have a: "x + 4096 - 1 = x + 4095" by simp
  have b: "(4096 :: size_t) - 1 = mask 12" by (simp add: mask_eq_exp_minus_1)
  have c: "unat (x + 4095) = unat x + 4095"
    using assms by (simp add: unat_add_lem [THEN iffD1])
  have "unat ((x + 4095) AND NOT (mask 12)) = (unat (x + 4095) div 2 ^ 12) * 2 ^ 12"
    by (rule unat_and_not_mask)
  then show ?thesis
    unfolding a b c by (simp add: rounded_up_to_def)
qed

lemma rounded_up_to_ge: "0 < a \<Longrightarrow> n \<le> rounded_up_to a n"
proof -
  assume a: "0 < a"
  have "n + a - 1 = (n + a - 1) div a * a + (n + a - 1) mod a" by simp
  moreover have "(n + a - 1) mod a \<le> a - 1" using a
    by (metis Suc_pred' less_Suc_eq_le mod_less_divisor)
  ultimately show ?thesis unfolding rounded_up_to_def using a by linarith
qed

lemma rounded_up_to_lt: "0 < a \<Longrightarrow> rounded_up_to a n < n + a"
proof -
  assume a: "0 < a"
  have "(n + a - 1) div a * a \<le> n + a - 1" by simp
  then show ?thesis unfolding rounded_up_to_def using a by linarith
qed

lemma rounded_up_to_mod: "rounded_up_to a n mod a = 0"
  by (simp add: rounded_up_to_def)

lemma round_up_to_page_size_ok:
  assumes "unat (x :: size_t) + 4143 < 2 ^ 64"
  shows "\<exists>r. round_up_to_page_size x = Inr r \<and> unat r = rounded_up_to 4096 (unat x + 48) - 48
             \<and> unat x \<le> unat r"
proof -
  let ?min = "x + 6 * sizeof_void_ptr"
  have min: "unat ?min = unat x + 48"
    using assms by (simp add: sizeof_void_ptr_def unat_add_lem [THEN iffD1])
  let ?R = "rounded_up_to 4096 (unat x + 48)"
  let ?rounded = "(?min + 4096 - 1) AND NOT (4096 - 1)"
  have r: "unat ?rounded = ?R"
    using page_round_unat [of ?min] assms min by simp
  have ge: "unat x + 48 \<le> ?R" by (rule rounded_up_to_ge) simp
  have lt: "?R < unat x + 48 + 4096" by (rule rounded_up_to_lt) simp
  have a1: "?min \<le> ?rounded"
    by (simp only: word_le_nat_alt r min ge)
  have a2: "?rounded mod 4096 = 0"
  proof -
    have "unat (?rounded mod 4096) = ?R mod 4096"
      by (simp only: unat_mod r) simp
    then have "unat (?rounded mod 4096) = 0" by (simp add: rounded_up_to_mod)
    then show ?thesis by (simp only: unat_eq_0)
  qed
  have sub: "unat (?rounded - 6 * sizeof_void_ptr) = ?R - 48"
  proof -
    have "6 * sizeof_void_ptr \<le> ?rounded"
      using ge r by (simp add: word_le_nat_alt sizeof_void_ptr_def)
    then have "unat (?rounded - 6 * sizeof_void_ptr) = unat ?rounded - unat (6 * sizeof_void_ptr)"
      by (rule unat_sub)
    with r show ?thesis by (simp add: sizeof_void_ptr_def)
  qed
  have a3: "x \<le> ?rounded - 6 * sizeof_void_ptr"
    using ge by (simp only: word_le_nat_alt sub)
  show ?thesis
    unfolding round_up_to_page_size_def Let_def
    using a1 a2 a3 sub ge by simp
qed


lemma bump_top:
  assumes "h (m_fib st) = Some tp" "is_top h tp"
  shows "bump e h st = Inr (m_sp tp, h(m_fib st \<mapsto> tp\<lparr>m_sp := m_sp tp + e\<rparr>), st)"
  using assms by (simp add: bump_def)

lemma aligned_plus_48:
  assumes "aligned b" "unat b + 48 < 2 ^ 64"
  shows "aligned (b + 48)"
proof -
  have "unat (b + 48) = unat b + 48"
    using assms(2) by (simp add: unat_add_lem [THEN iffD1])
  moreover have "unat b mod 16 = 0" using assms(1) by (simp add: aligned_def k_new_align_def)
  ultimately show ?thesis
    by (simp add: aligned_def k_new_align_def mod_add_left_eq [symmetric])
qed

lemma allocate_fresh:
  assumes tp: "h (m_fib st) = Some tp" and top: "is_top h tp"
    and mal: "malloc_ok malloc h"
    and e: "unat e = n" and capb: "2 * unat (capacity tp) + 4191 < 2 ^ 64"
    and nb: "n + 4191 < 2 ^ 64"
  defines "want \<equiv> max (2 * unat (capacity tp)) n"
  defines "request \<equiv> rounded_up_to 4096 (want + 48 + 48) - 48"
  shows "case malloc (of_nat request) of
           None \<Rightarrow> next_stacklet malloc (max (2 * capacity tp) e) (Some (m_fib st)) h = Inl bad_alloc
         | Some b \<Rightarrow>
             next_stacklet malloc (max (2 * capacity tp) e) (Some (m_fib st)) h =
               Inr (b, (set_next (m_fib st) (Some b) h)
                         (b \<mapsto> \<lparr>m_lo = b + 48, m_sp = b + 48,
                                m_hi = b + of_nat request,
                                m_prev = Some (m_fib st), m_next = None\<rparr>))
             \<and> aligned (b + 48)"
proof -
  let ?w = "max (2 * capacity tp) e"
  have two: "unat (2 * capacity tp) = 2 * unat (capacity tp)"
    using capb by (simp add: unat_mult_lem [THEN iffD1])
  have w: "unat ?w = want"
    unfolding want_def using two e by (simp add: max_def word_le_nat_alt)
  have wb: "want + 4191 < 2 ^ 64"
    unfolding want_def using capb nb by simp
  have w48: "unat (?w + sizeof_stacklet) = want + 48"
    using wb w by (simp add: sizeof_stacklet_def unat_add_lem [THEN iffD1])
  have "unat (?w + sizeof_stacklet) + 4143 < 2 ^ 64"
    using wb w48 by simp
  from round_up_to_page_size_ok [OF this]
  obtain r where r: "round_up_to_page_size (?w + sizeof_stacklet) = Inr r"
    and ur: "unat r = request" and ger: "want + 48 \<le> unat r"
    unfolding request_def w48 by auto
  have rr: "r = of_nat request" using ur [symmetric] by simp
  have chk: "sizeof_stacklet + ?w \<le> r"
    using ger w48 by (simp add: word_le_nat_alt add.commute)
  show ?thesis
  proof (cases "malloc (of_nat request)")
    case None
    then show ?thesis
      using tp top r chk rr by (simp add: next_stacklet_def)
  next
    case (Some b)
    then have "aligned b" "unat b + unat r < 2 ^ 64"
      using mal rr unfolding malloc_ok_def by blast+
    then have "aligned (b + 48)"
      using ger by (intro aligned_plus_48) auto
    then show ?thesis
      using Some tp top r chk rr by (simp add: next_stacklet_def sizeof_stacklet_def)
  qed
qed


lemma is_top_cached:
  assumes "is_top h tp" "m_next tp = Some c" "h c = Some cs"
  shows "empty_stacklet cs" "m_next cs = None" "is_top h cs"
  using assms by (simp_all add: is_top_def)

text \<open>
  Claim C8 (amended). On a well-formed stack, with an allocator that keeps its
  contract, and for a request whose roundings do not wrap around \<open>2 ^ 64\<close>,
  \<open>allocate\<close> does what the specification says: it bumps the top stacklet when that has
  the rounded request unused, else moves to a cached stacklet of sufficient capacity,
  else mallocs a stacklet for the larger of twice the top's capacity and the rounded
  request (with its header, rounded so that the block and the 48 bytes of allocator
  metadata fill whole 4096-byte pages) and fails with \<open>bad_alloc\<close> when malloc returns
  null; the pointer returned is aligned to \<open>k_new_align\<close>.
\<close>

theorem allocate_meets_spec:
  assumes ok: "stack_ok h st" and mal: "malloc_ok malloc h" and nw: "no_wrap sz h st"
  shows "allocate_spec malloc sz h st (allocate malloc sz h st)"
proof -
  from ok obtain tp where tp: "h (m_fib st) = Some tp"
    by (auto simp: stack_ok_def split: option.splits)
  from ok tp have top: "is_top h tp" and al: "aligned (m_sp tp)"
    by (simp_all add: stack_ok_def)
  let ?n = "rounded_up_to 16 (unat sz)"
  let ?e = "(sz + k_new_align - 1) AND NOT (k_new_align - 1)"
  from nw tp have szb: "unat sz + 4206 < 2 ^ 64"
    and capb: "2 * unat (capacity tp) + 4191 < 2 ^ 64"
    by (simp_all add: no_wrap_def)
  have e: "unat ?e = ?n" using szb by (intro ext_size_unat) simp
  have e': "of_nat ?n = ?e" using e [symmetric] by simp
  have nlt: "?n < unat sz + 16" by (rule rounded_up_to_lt) simp
  have cmp: "unused tp < ?e \<longleftrightarrow> \<not> ?n \<le> unat (unused tp)"
    by (simp only: word_less_nat_alt e) auto
  show ?thesis
  proof (cases "?n \<le> unat (unused tp)")
    case True
    then have "allocate malloc sz h st = bump ?e h st"
      using tp top cmp by (simp add: allocate_def Let_def)
    also have "\<dots> = Inr (m_sp tp, h(m_fib st \<mapsto> tp\<lparr>m_sp := m_sp tp + ?e\<rparr>), st)"
      using tp top by (rule bump_top)
    finally show ?thesis
      using tp True al by (simp add: allocate_spec_def Let_def e')
  next
    case False
    note small = this
    show ?thesis
    proof (cases "cached_fits h tp ?e")
      case True
      then obtain c cs where c: "m_next tp = Some c" "h c = Some cs" and fit: "?e \<le> capacity cs"
        by (auto simp: cached_fits_def split: option.splits)
      from fit have fit': "?n \<le> unat (capacity cs)"
        by (simp only: word_le_nat_alt e)
      from is_top_cached [OF top c] have cs: "empty_stacklet cs" "is_top h cs" by simp_all
      from ok tp c have "aligned (m_lo cs)" by (simp add: stack_ok_def)
      with cs have alc: "aligned (m_sp cs)" by (simp add: empty_stacklet_def)
      have "allocate malloc sz h st = bump ?e h (st\<lparr>m_fib := c\<rparr>)"
        using tp top cmp small True c by (simp add: allocate_def Let_def)
      also have "\<dots> = Inr (m_sp cs, h(c \<mapsto> cs\<lparr>m_sp := m_sp cs + ?e\<rparr>), st\<lparr>m_fib := c\<rparr>)"
        using c(2) cs(2) by (simp add: bump_def)
      finally show ?thesis
        using tp small c fit' alc by (simp add: allocate_spec_def Let_def e')
    next
      case False
      then have nofit: "(case m_next tp of
                            None \<Rightarrow> None
                          | Some c \<Rightarrow> (case h c of
                                         None \<Rightarrow> None
                                       | Some cs \<Rightarrow> if ?n \<le> unat (capacity cs) then Some (c, cs) else None)) = None"
        by (auto simp: cached_fits_def word_le_nat_alt e split: option.splits)
      let ?want = "max (2 * unat (capacity tp)) ?n"
      let ?request = "rounded_up_to 4096 (?want + 48 + 48) - 48"
      have nb: "?n + 4191 < 2 ^ 64" using nlt szb by simp
      note fresh = allocate_fresh [OF tp top mal e capb nb]
      have alloc: "allocate malloc sz h st =
          (case next_stacklet malloc (max (2 * capacity tp) ?e) (Some (m_fib st)) h of
             Inl e \<Rightarrow> Inl e
           | Inr (n, h') \<Rightarrow> bump ?e h' (st\<lparr>m_fib := n\<rparr>))"
        using tp top cmp small False by (simp add: allocate_def Let_def)
      show ?thesis
      proof (cases "malloc (of_nat ?request)")
        case None
        with fresh have "allocate malloc sz h st = Inl bad_alloc"
          by (simp add: alloc)
        then show ?thesis
          using tp small nofit None by (simp add: allocate_spec_def Let_def)
      next
        case (Some b)
        with fresh have ns: "next_stacklet malloc (max (2 * capacity tp) ?e) (Some (m_fib st)) h =
               Inr (b, (set_next (m_fib st) (Some b) h)
                         (b \<mapsto> \<lparr>m_lo = b + 48, m_sp = b + 48,
                                m_hi = b + of_nat ?request,
                                m_prev = Some (m_fib st), m_next = None\<rparr>))"
          and alb: "aligned (b + 48)" by simp_all
        have "allocate malloc sz h st =
                Inr (b + 48,
                     (set_next (m_fib st) (Some b) h)
                       (b \<mapsto> \<lparr>m_lo = b + 48, m_sp = b + 48 + ?e,
                              m_hi = b + of_nat ?request,
                              m_prev = Some (m_fib st), m_next = None\<rparr>),
                     st\<lparr>m_fib := b\<rparr>)"
          by (simp add: alloc ns bump_def is_top_def)
        then show ?thesis
          using tp small nofit Some alb by (simp add: allocate_spec_def Let_def e')
      qed
    qed
  qed
qed

theorem allocate_meets_spec_witness:
  "stack_ok (fresh_stacklets 4096) \<lparr>m_fib = 4096\<rparr> \<and>
   malloc_ok (\<lambda>r. if r = 8144 then Some 8192 else None) (fresh_stacklets 4096) \<and>
   no_wrap 5000 (fresh_stacklets 4096) \<lparr>m_fib = 4096\<rparr> \<and>
   allocate_spec (\<lambda>r. if r = 8144 then Some 8192 else None) 5000
     (fresh_stacklets 4096) \<lparr>m_fib = 4096\<rparr>
     (allocate (\<lambda>r. if r = 8144 then Some 8192 else None) 5000
        (fresh_stacklets 4096) \<lparr>m_fib = 4096\<rparr>)"
proof -
  have a: "stack_ok (fresh_stacklets 4096) \<lparr>m_fib = 4096\<rparr>"
    by (simp add: stack_ok_def fresh_stacklets_def is_top_def aligned_def k_new_align_def)
  have b: "malloc_ok (\<lambda>r. if r = 8144 then Some 8192 else None) (fresh_stacklets 4096)"
    by (simp add: malloc_ok_def fresh_stacklets_def aligned_def k_new_align_def)
  have c: "no_wrap 5000 (fresh_stacklets 4096) \<lparr>m_fib = 4096\<rparr>"
    by (simp add: no_wrap_def fresh_stacklets_def capacity_def)
  from allocate_meets_spec [OF a b c] a b c show ?thesis by simp
qed

text \<open>
  The stack of the examples is the one the constructor builds, and on it the request of
  5000 bytes above is served from a new stacklet of 8144 bytes.
\<close>

lemma fresh_stacklets_init:
  "next_stacklet_init (\<lambda>_. Some 4096) Map.empty = Inr (4096, fresh_stacklets 4096)"
  by (simp add: next_stacklet_init_def next_stacklet_def round_up_to_page_size_def
      sizeof_stacklet_def sizeof_void_ptr_def fresh_stacklets_def Let_def)

lemma allocate_wraps_value:
  "allocate Map.empty (- 1) (fresh_stacklets 4096) \<lparr>m_fib = 4096\<rparr>
     = Inr (4144, fresh_stacklets 4096, \<lparr>m_fib = 4096\<rparr>)"
  by (simp add: allocate_def bump_def is_top_def k_new_align_def fresh_stacklets_def
      unused_def Let_def)

text \<open>
  Claim C8 as stated fails where the rounding wraps. On the fresh stack (4000 bytes
  unused, nothing cached) and with an allocator that has no memory left,
  \<open>allocate(SIZE_MAX)\<close> computes \<open>ext_size = 0\<close>, finds \<open>unused() < ext_size\<close> false and
  returns the stack pointer of the top stacklet, where the specification has it raise
  \<open>bad_alloc\<close>.
\<close>

theorem allocate_wraps_counterexample:
  "\<not> allocate_spec Map.empty (- 1) (fresh_stacklets 4096) \<lparr>m_fib = 4096\<rparr>
       (allocate Map.empty (- 1) (fresh_stacklets 4096) \<lparr>m_fib = 4096\<rparr>)"
  unfolding allocate_wraps_value
  by (simp add: allocate_spec_def fresh_stacklets_def unused_def rounded_up_to_def Let_def
      unsigned_minus_1_eq_mask mask_eq_exp_minus_1)

section \<open>The join race\<close>

lemma uint_u16_max_minus: "uint (k_u16_max - x) = uint k_u16_max - uint x"
proof -
  have "x \<le> k_u16_max"
    by (simp add: k_u16_max_def word_le_def) (use uint_lt2p [of x] in simp)
  then show ?thesis by (simp add: uint_minus_simple_alt)
qed

lemma val_u16: "(word_of_int (uint k_u16_max - uint s) :: u16) = k_u16_max - s"
  by (rule word_sub_wi [symmetric])

lemma race_iff: "uint (s :: u16) = uint k_u16_max - uint j \<longleftrightarrow> j = k_u16_max - s"
proof -
  have "uint s = uint k_u16_max - uint j \<longleftrightarrow> uint s = uint (k_u16_max - j)"
    by (simp add: uint_u16_max_minus)
  also have "\<dots> \<longleftrightarrow> s = k_u16_max - j" by (simp add: word_uint_eq_iff)
  also have "\<dots> \<longleftrightarrow> j = k_u16_max - s" by auto
  finally show ?thesis .
qed

lemma free_Some: "free (Some a) h = h(a := None)"
  by (simp add: free_def)

text \<open>
  Claim C2. At a join on a frame \<open>P\<close> with steal counter \<open>s \<noteq> 0\<close>, \<open>await_suspend\<close> does one
  \<open>fetch_sub(U16_MAX - s)\<close> on the join counter with release ordering. If and only if the
  value before it was \<open>U16_MAX - s\<close> (exactly \<open>s\<close> children had joined) the worker wins: it
  issues an acquire fence, makes \<open>P\<close>'s stacklet its stack, freeing the empty stack it had,
  resets the steal counter to 0 and the join counter to \<open>U16_MAX\<close>, and resumes \<open>P\<close>. The
  code asserts there that the worker's stack is empty and on top of its chain, and that
  \<open>P\<close>'s stacklet is the top of its chain; where one of these fails, so does the call.
  Otherwise the worker does none of this and leaves with a self-steal: it pops its own
  deque and resumes the task popped, whose steal counter it increments, or returns the
  no-op coroutine that takes it back to the scheduler loop.
\<close>

theorem join_await_suspend_race:
  assumes P: "frames w P = Some f"
    and steals: "m_steal f \<noteq> 0"
    and own: "heap w (m_fib (tls_stack w)) = Some tp"
  shows "join_await_suspend cas_ok P task w =
     (let w1 = w\<lparr>frames := (frames w)(P \<mapsto> f\<lparr>m_join := m_join f - (k_u16_max - m_steal f)\<rparr>),
                 events := events w @
                   [ev_fetch_sub_joins P (k_u16_max - m_steal f) memory_order_release]\<rparr>
      in if m_join f = k_u16_max - m_steal f then
           (if is_top (heap w) tp \<and> empty_stacklet tp \<and> m_prev tp = None \<and>
               points_to_top (heap w) (m_stacklet f)
            then Inr (coro task,
                      w\<lparr>frames := (frames w)(P \<mapsto> f\<lparr>m_steal := 0, m_join := k_u16_max\<rparr>),
                        events := events w @
                          [ev_fetch_sub_joins P (k_u16_max - m_steal f) memory_order_release,
                           ev_atomic_thread_fence memory_order_acquire],
                        heap := (free (m_next tp) (heap w))(m_fib (tls_stack w) := None),
                        tls_stack := (tls_stack w)\<lparr>m_fib := m_stacklet f\<rparr>\<rparr>)
            else Inl assertion_failed)
         else
           (case pop cas_ok (tls_context w) of
              (None, d') \<Rightarrow> Inr (noop_coroutine, w1\<lparr>tls_context := d'\<rparr>)
            | (Some t, d') \<Rightarrow>
                Inr (coro t,
                     w1\<lparr>tls_context := d',
                        frames := (case frames w1 t of
                                     None \<Rightarrow> frames w1
                                   | Some g \<Rightarrow> (frames w1)(t \<mapsto> g\<lparr>m_steal := m_steal g + 1\<rparr>))\<rparr>)))"
proof (cases "m_join f = k_u16_max - m_steal f")
  case True
  with P steals own show ?thesis
    by (auto simp add: join_await_suspend_def Let_def fetch_sub_joins_def load_steals_def val_u16
        race_iff take_stack_reset_frame_def reset_def assign_stack_def stack_empty_def
        stack_from_def stack_dtor_def points_to_top_def set_next_def free_Some
        split: prod.splits option.splits)
next
  case False
  with P steals show ?thesis
    by (auto simp add: join_await_suspend_def Let_def fetch_sub_joins_def load_steals_def val_u16
        race_iff try_self_stealing_def fetch_add_steal_def
        split: prod.splits option.splits)
qed

text \<open>
  Two runs on the worker that stole \<open>P\<close>, with two steals recorded: when both children
  have joined (the counter is \<open>U16_MAX - 2\<close>) the join is won; when only one has, the
  counter is left at 1 and the worker goes back to its loop. A third, where \<open>P\<close>'s
  stacklet at 4096 is followed by a stacklet that is in use: the join is won but the
  construction of the stack from \<open>P\<close>'s stacklet fails its assertion.
\<close>

theorem join_await_suspend_race_witness:
  "join_await_suspend True 4144 4144 (ex_thief (k_u16_max - 2) 2 None) =
     Inr (coro 4144,
          (ex_thief (k_u16_max - 2) 2 None)
            \<lparr>frames := [4144 \<mapsto> ex_frame k_u16_max 0 None],
             events := [ev_fetch_sub_joins 4144 (k_u16_max - 2) memory_order_release,
                        ev_atomic_thread_fence memory_order_acquire],
             heap := [4096 \<mapsto> \<lparr>m_lo = 4144, m_sp = 4208, m_hi = 8144, m_prev = None, m_next = None\<rparr>],
             tls_stack := \<lparr>m_fib = 4096\<rparr>\<rparr>)
   \<and> join_await_suspend True 4144 4144 (ex_thief (k_u16_max - 1) 2 None) =
     Inr (noop_coroutine,
          (ex_thief (k_u16_max - 1) 2 None)
            \<lparr>frames := [4144 \<mapsto> ex_frame 1 2 None],
             events := [ev_fetch_sub_joins 4144 (k_u16_max - 2) memory_order_release]\<rparr>)
   \<and> join_await_suspend True 4144 4144
        ((ex_thief (k_u16_max - 2) 2 None)\<lparr>heap := ex_heap_below\<rparr>) = Inl assertion_failed"
proof -
  let ?tp = "\<lparr>m_lo = 8240, m_sp = 8240, m_hi = 12240, m_prev = None, m_next = None\<rparr>"
  have a: "frames (ex_thief j 2 None) 4144 = Some (ex_frame j 2 None)" for j
    by (simp add: ex_thief_def)
  have b: "m_steal (ex_frame j 2 None) \<noteq> 0" for j
    by (simp add: ex_frame_def)
  have c: "heap (ex_thief j 2 None) (m_fib (tls_stack (ex_thief j 2 None))) = Some ?tp" for j
    by (simp add: ex_thief_def ex_heap_def)
  have a': "frames ((ex_thief j 2 None)\<lparr>heap := ex_heap_below\<rparr>) 4144 = Some (ex_frame j 2 None)" for j
    by (simp add: ex_thief_def)
  have c': "heap ((ex_thief j 2 None)\<lparr>heap := ex_heap_below\<rparr>)
              (m_fib (tls_stack ((ex_thief j 2 None)\<lparr>heap := ex_heap_below\<rparr>))) = Some ?tp" for j
    by (simp add: ex_thief_def ex_heap_below_def)
  have t: "is_top ex_heap ?tp" "is_top ex_heap_below ?tp" "empty_stacklet ?tp"
    "points_to_top ex_heap 4096" "\<not> points_to_top ex_heap_below 4096"
    by (simp_all add: is_top_def empty_stacklet_def points_to_top_def ex_heap_def
        ex_heap_below_def)
  have p: "pop True (new_deque 4) = (None, new_deque 4)"
    by (simp add: pop_def new_deque_def Let_def)
  have h: "(free None ex_heap)(8192 := None) =
             [4096 \<mapsto> \<lparr>m_lo = 4144, m_sp = 4208, m_hi = 8144, m_prev = None, m_next = None\<rparr>]"
    by (rule ext) (simp add: free_def ex_heap_def)
  show ?thesis
    using join_await_suspend_race [OF a [of "k_u16_max - 2"] b [of "k_u16_max - 2"]
        c [of "k_u16_max - 2"], where cas_ok = True and task = 4144]
      join_await_suspend_race [OF a [of "k_u16_max - 1"] b [of "k_u16_max - 1"]
        c [of "k_u16_max - 1"], where cas_ok = True and task = 4144]
      join_await_suspend_race [OF a' [of "k_u16_max - 2"] b [of "k_u16_max - 2"]
        c' [of "k_u16_max - 2"], where cas_ok = True and task = 4144]
      t
    by (simp add: ex_thief_def ex_frame_def p h k_u16_max_def Let_def)
qed

section \<open>Terminal suspension of a forked child\<close>

text \<open>
  Claim C3 (amended). When a forked child of \<open>parent\<close> reaches its terminal suspension the
  worker pops its deque. If a task comes back it is asserted to be the parent, control
  goes to the parent and nothing else changes; the join counter is not touched. Otherwise
  the worker, whose stack is asserted to be on top of its chain, decrements the parent's
  join counter by one with release ordering. If and only if the value before was 1 it
  issues an acquire fence and resumes the parent, reset, with its stack on the parent's
  stacklet: already there when that is the worker's stack, and otherwise installed from
  the stacklet's address, the stack the worker had being freed; the code asserts there
  that the worker's stack is empty and that the parent's stacklet is the top of its
  chain, and fails where this does not hold. If the value was not 1 the worker returns to
  the scheduler loop, and it releases its stack only when that is the stack the parent
  lives on; a worker whose own stack is another one keeps it.
\<close>

theorem final_await_suspend_cases:
  assumes parent: "frames w parent = Some pf"
    and top: "heap w (m_fib (tls_stack w)) = Some tp"
  shows "final_await_suspend malloc cas_ok parent w =
     (case pop cas_ok (tls_context w) of
        (Some t, d') \<Rightarrow>
          if t = parent then Inr (coro parent, w\<lparr>tls_context := d'\<rparr>) else Inl assertion_failed
      | (None, d') \<Rightarrow>
          if \<not> is_top (heap w) tp then Inl assertion_failed
          else
            (let w1 = w\<lparr>tls_context := d',
                       frames := (frames w)(parent \<mapsto> pf\<lparr>m_join := m_join pf - 1\<rparr>),
                       events := events w @ [ev_fetch_sub_joins parent 1 memory_order_release]\<rparr>;
                 w2 = w1\<lparr>events := events w1 @ [ev_atomic_thread_fence memory_order_acquire],
                         frames := (frames w)(parent \<mapsto> pf\<lparr>m_steal := 0, m_join := k_u16_max\<rparr>)\<rparr>
             in if m_join pf = 1 then
                  (if m_stacklet pf = m_fib (tls_stack w) then Inr (coro parent, w2)
                   else if empty_stacklet tp \<and> m_prev tp = None \<and>
                           points_to_top (heap w) (m_stacklet pf)
                   then Inr (coro parent,
                             w2\<lparr>heap := (free (m_next tp) (heap w))(m_fib (tls_stack w) := None),
                                tls_stack := (tls_stack w)\<lparr>m_fib := m_stacklet pf\<rparr>\<rparr>)
                   else Inl assertion_failed)
                else if m_stacklet pf = m_fib (tls_stack w) then
                  (case next_stacklet_init malloc (heap w) of
                     Inl e \<Rightarrow> Inl (if e = bad_alloc then terminate else e)
                   | Inr (n, h') \<Rightarrow>
                       Inr (noop_coroutine, w1\<lparr>heap := h', tls_stack := (tls_stack w)\<lparr>m_fib := n\<rparr>\<rparr>))
                else Inr (noop_coroutine, w1)))"
proof (cases "pop cas_ok (tls_context w)")
  case (Pair r d')
  show ?thesis
  proof (cases r)
    case None
    with Pair parent top show ?thesis
      by (auto simp add: final_await_suspend_def Let_def fetch_sub_joins_def reset_def
          assign_stack_def stack_empty_def stack_from_def stack_dtor_def points_to_top_def
          set_next_def free_Some release_def
          split: sum.splits prod.splits option.splits)
  next
    case (Some t)
    with Pair show ?thesis by (simp add: final_await_suspend_def)
  qed
qed


text \<open>
  The worker that stole \<open>P\<close>, ran a child of it and lost \<open>P\<close> to a second thief: \<open>P\<close> has
  not joined (the counter is \<open>U16_MAX\<close>), the child is not the last, and \<open>P\<close> lives on the
  stacklet at 4096 while the worker's stack is the one at 8192.
\<close>

lemma ex_thief_pop: "pop c (tls_context (ex_thief j s e)) = (None, tls_context (ex_thief j s e))"
  by (simp add: ex_thief_def pop_def new_deque_def Let_def)

lemma final_suspend_keeps_stack_value:
  "final_await_suspend (\<lambda>_. Some 16384) True 4144 (ex_thief k_u16_max 2 None) =
     Inr (noop_coroutine,
          (ex_thief k_u16_max 2 None)
            \<lparr>frames := [4144 \<mapsto> ex_frame (k_u16_max - 1) 2 None],
             events := [ev_fetch_sub_joins 4144 1 memory_order_release]\<rparr>)"
  by (simp add: final_await_suspend_def ex_thief_pop)
     (simp add: ex_thief_def ex_heap_def ex_frame_def is_top_def fetch_sub_joins_def k_u16_max_def
        new_deque_def Let_def)

text \<open>
  Claim C3 as stated fails there: the worker does not release its stack, although the
  allocator would have given it a new stacklet at 16384.
\<close>

theorem final_suspend_keeps_stack_counterexample:
  "\<not> final_suspend_claim (\<lambda>_. Some 16384) True 4144 (ex_thief k_u16_max 2 None)
       (final_await_suspend (\<lambda>_. Some 16384) True 4144 (ex_thief k_u16_max 2 None))"
  unfolding final_suspend_keeps_stack_value
  by (simp add: final_suspend_claim_def ex_thief_pop)
     (simp add: ex_thief_def ex_heap_def ex_frame_def k_u16_max_def release_def
        next_stacklet_init_def next_stacklet_def round_up_to_page_size_def sizeof_stacklet_def
        sizeof_void_ptr_def Let_def)

theorem final_await_suspend_cases_witness:
  "final_await_suspend (\<lambda>_. Some 16384) True 4144 (ex_thief 1 2 None) =
     Inr (coro 4144,
          (ex_thief 1 2 None)
            \<lparr>frames := [4144 \<mapsto> ex_frame k_u16_max 0 None],
             events := [ev_fetch_sub_joins 4144 1 memory_order_release,
                        ev_atomic_thread_fence memory_order_acquire],
             heap := [4096 \<mapsto> \<lparr>m_lo = 4144, m_sp = 4208, m_hi = 8144, m_prev = None, m_next = None\<rparr>],
             tls_stack := \<lparr>m_fib = 4096\<rparr>\<rparr>)
   \<and> final_await_suspend (\<lambda>_. Some 16384) True 4144 (ex_thief k_u16_max 2 None) =
     Inr (noop_coroutine,
          (ex_thief k_u16_max 2 None)
            \<lparr>frames := [4144 \<mapsto> ex_frame (k_u16_max - 1) 2 None],
             events := [ev_fetch_sub_joins 4144 1 memory_order_release]\<rparr>)
   \<and> final_await_suspend (\<lambda>_. Some 16384) True 4144
        ((ex_thief 1 2 None)\<lparr>heap := ex_heap_below\<rparr>) = Inl assertion_failed"
proof -
  let ?tp = "\<lparr>m_lo = 8240, m_sp = 8240, m_hi = 12240, m_prev = None, m_next = None\<rparr>"
  have a: "frames (ex_thief j 2 None) 4144 = Some (ex_frame j 2 None)" for j
    by (simp add: ex_thief_def)
  have b: "heap (ex_thief j 2 None) (m_fib (tls_stack (ex_thief j 2 None))) = Some ?tp" for j
    by (simp add: ex_thief_def ex_heap_def)
  have a': "frames ((ex_thief j 2 None)\<lparr>heap := ex_heap_below\<rparr>) 4144 = Some (ex_frame j 2 None)" for j
    by (simp add: ex_thief_def)
  have b': "heap ((ex_thief j 2 None)\<lparr>heap := ex_heap_below\<rparr>)
              (m_fib (tls_stack ((ex_thief j 2 None)\<lparr>heap := ex_heap_below\<rparr>))) = Some ?tp" for j
    by (simp add: ex_thief_def ex_heap_below_def)
  have t: "is_top ex_heap ?tp" "is_top ex_heap_below ?tp" "empty_stacklet ?tp"
    "points_to_top ex_heap 4096" "\<not> points_to_top ex_heap_below 4096"
    by (simp_all add: is_top_def empty_stacklet_def points_to_top_def ex_heap_def
        ex_heap_below_def)
  have p: "pop True (new_deque 4) = (None, new_deque 4)"
    by (simp add: pop_def new_deque_def Let_def)
  have h: "(free None ex_heap)(8192 := None) =
             [4096 \<mapsto> \<lparr>m_lo = 4144, m_sp = 4208, m_hi = 8144, m_prev = None, m_next = None\<rparr>]"
    by (rule ext) (simp add: free_def ex_heap_def)
  show ?thesis
    using final_await_suspend_cases [OF a [of 1] b [of 1], where malloc = "\<lambda>_. Some 16384"
        and cas_ok = True]
      final_await_suspend_cases [OF a [of k_u16_max] b [of k_u16_max],
        where malloc = "\<lambda>_. Some 16384" and cas_ok = True]
      final_await_suspend_cases [OF a' [of 1] b' [of 1], where malloc = "\<lambda>_. Some 16384"
        and cas_ok = True]
      t
    by (simp add: ex_thief_def ex_frame_def p h k_u16_max_def Let_def)
qed

section \<open>A fork whose push throws\<close>

text \<open>\<open>push\<close> throws exactly when it has to grow the buffer and \<open>new\<close> fails.\<close>

lemma push_throws_iff:
  "push new_ok grow_ok v d = Inl bad_alloc \<longleftrightarrow>
     m_cap (m_buf d) < m_bottom d - m_top d + 1 \<and> \<not> new_ok"
  by (simp add: push_def Let_def)

text \<open>
  Claim C4. If the push of the parent's handle throws \<open>bad_alloc\<close> when \<open>P\<close> forks \<open>C\<close>, then
  \<open>C\<close>'s frame is destroyed (it leaves the live frames and its memory goes back to the
  stack), control never goes to \<open>C\<close>, and \<open>P\<close> is resumed with the exception re-thrown
  in it. Nothing else has changed: the deque and every other frame, \<open>P\<close>'s included, are
  as before the fork.
\<close>

theorem fork_push_throws:
  assumes throws: "push new_ok grow_ok (self aw) (tls_context w) = Inl bad_alloc"
    and child: "child aw = Some c" "frames w c = Some cf" "m_stacklet cf = m_fib (tls_stack w)"
    and dealloc: "deallocate c (heap w) (tls_stack w) = Inr (h', st')"
  shows "co_await_fork new_ok grow_ok aw w =
           (resumed_rethrowing (self aw) bad_alloc,
            aw\<lparr>child := None\<rparr>,
            w\<lparr>frames := (frames w)(c := None), heap := h', tls_stack := st',
              events := events w @ [ev_destroy c]\<rparr>)"
  using assms
  by (simp add: co_await_fork_def fork_await_suspend_def destroy_def after_await_suspend_def Let_def)

text \<open>
  The owner of \<open>P\<close> forks the child at 4208 with its deque full and no memory for a larger
  buffer.
\<close>

theorem fork_push_throws_witness:
  "push False True 4144 (tls_context ex_owner) = Inl bad_alloc \<and>
   co_await_fork False True \<lparr>child = Some 4208, self = 4144\<rparr> ex_owner =
     (resumed_rethrowing 4144 bad_alloc,
      \<lparr>child = None, self = 4144\<rparr>,
      ex_owner\<lparr>frames := [4144 \<mapsto> ex_frame k_u16_max 0 None],
               heap := [4096 \<mapsto> \<lparr>m_lo = 4144, m_sp = 4208, m_hi = 8144, m_prev = None, m_next = None\<rparr>],
               events := [ev_destroy 4208]\<rparr>)"
proof -
  have a: "push False True (self \<lparr>child = Some 4208, self = 4144\<rparr>) (tls_context ex_owner) = Inl bad_alloc"
    by (simp add: push_throws_iff ex_owner_def)
  have b: "child \<lparr>child = Some 4208, self = 4144\<rparr> = Some 4208" by simp
  have c: "frames ex_owner 4208 = Some ((new_frame 4096)\<lparr>m_parent := Some 4144\<rparr>)"
    by (simp add: ex_owner_def)
  have d: "m_stacklet ((new_frame 4096)\<lparr>m_parent := Some 4144\<rparr>) = m_fib (tls_stack ex_owner)"
    by (simp add: ex_owner_def new_frame_def)
  have e: "deallocate 4208 (heap ex_owner) (tls_stack ex_owner) =
      Inr ([4096 \<mapsto> \<lparr>m_lo = 4144, m_sp = 4208, m_hi = 8144, m_prev = None, m_next = None\<rparr>],
           \<lparr>m_fib = 4096\<rparr>)"
    by (simp add: deallocate_def ex_owner_def is_top_def empty_stacklet_def Let_def)
  from fork_push_throws [OF a b c d e] a show ?thesis
    by (simp add: ex_owner_def)
qed

section \<open>Eager and sync rethrow\<close>






section \<open>The destructor of a future\<close>

lemma owner_calls_inv:
  assumes h: "m_heap fut = Some p" and i: "future_inv p fin (n, None, st)" and c: "is_call ev"
  shows "future_inv p fin (owner_calls fut ev (n, None, st))"
  using assms
  by (auto simp: future_inv_def owner_calls_def perform_def is_call_def future_wait_def
      future_get_def sem_acquire_def valid_def Let_def
      split: option.splits sum.splits if_splits future_state.splits)

lemma root_task_finishes_inv:
  assumes "future_inv p fin (n, None, st)"
  shows "future_inv p True (n, None, root_task_finishes p r st)"
  using assms by (auto simp: future_inv_def root_task_finishes_def)

lemma pending_completes:
  assumes h: "m_heap fut = Some p" and i: "future_inv p fin (n, Some ev, st)"
  shows "future_inv p True (owner_calls fut ev (n, None, root_task_finishes p r st))"
  using assms
  by (auto simp: future_inv_def owner_calls_def perform_def is_call_def future_wait_def
      future_get_def sem_acquire_def root_task_finishes_def valid_def Let_def
      split: option.splits sum.splits if_splits future_state.splits)

lemma future_step_inv:
  assumes h: "m_heap fut = Some p" and i: "future_inv p fin s"
  shows "future_inv p (fin \<or> (\<exists>r. ev = task_done r)) (future_step fut ev s)"
proof -
  obtain n pending st where s: "s = (n, pending, st)" by (cases s)
  show ?thesis
  proof (cases ev)
    case (task_done r)
    show ?thesis
    proof (cases pending)
      case None
      with i s h task_done root_task_finishes_inv [of p fin n st r] show ?thesis by simp
    next
      case (Some c)
      with i s h task_done pending_completes [OF h, of fin n c st r] show ?thesis by simp
    qed
  next
    case call_wait
    show ?thesis
    proof (cases pending)
      case None
      with i s h call_wait owner_calls_inv [OF h, of fin n st call_wait] show ?thesis
        by (simp add: is_call_def)
    next
      case (Some c)
      with i s call_wait show ?thesis by simp
    qed
  next
    case call_get
    show ?thesis
    proof (cases pending)
      case None
      with i s h call_get owner_calls_inv [OF h, of fin n st call_get] show ?thesis
        by (simp add: is_call_def)
    next
      case (Some c)
      with i s call_get show ?thesis by simp
    qed
  qed
qed

lemma history_inv:
  assumes h: "m_heap fut = Some p" and st: "st p = Some new_shared_state"
  shows "future_inv p (task_finished evs) (history fut evs st)"
proof (induction evs rule: rev_induct)
  case Nil
  show ?case using st by (simp add: history_def task_finished_def future_inv_def new_shared_state_def)
next
  case (snoc ev evs)
  have "task_finished (evs @ [ev]) \<longleftrightarrow> task_finished evs \<or> (\<exists>r. ev = task_done r)"
    by (auto simp: task_finished_def)
  moreover have "history fut (evs @ [ev]) st = future_step fut ev (history fut evs st)"
    by (simp add: history_def)
  ultimately show ?case using future_step_inv [OF h snoc.IH, of ev] by simp
qed

text \<open>
  Claim C10. Take a future with a shared state, fresh from \<open>schedule\<close>, after any history
  of calls and of the task finishing that leaves its owner free to destroy it. If neither
  \<open>wait()\<close> nor \<open>get()\<close> has completed, the destructor acquires the semaphore of the root
  task: it blocks as long as the task has not finished and returns, with the semaphore
  taken, once it has. If a \<open>wait()\<close> or a \<open>get()\<close> has completed the destructor returns
  without touching the semaphore, and so it does after \<open>detach()\<close>, which empties \<open>m_heap\<close>.
\<close>

theorem future_dtor_blocks:
  assumes h: "m_heap fut = Some p" and st: "st0 p = Some new_shared_state"
    and hist: "history fut evs st0 = (n, None, st)"
  shows "(n = 0 \<longrightarrow>
            (\<exists>ss. st p = Some ss \<and>
               future_dtor fut st =
                 (if task_finished evs then returns () (st(p \<mapsto> ss\<lparr>sem := sem ss - 1\<rparr>))
                  else blocks)))
       \<and> (0 < n \<longrightarrow> future_dtor fut st = returns () st)
       \<and> future_dtor (detach fut) st = returns () st"
proof -
  from history_inv [of fut p st0 evs, OF h st] hist
  obtain ss where ss: "st p = Some ss" "status ss = no_wait \<longleftrightarrow> n = 0"
      "n = 0 \<longrightarrow> (0 < sem ss \<longleftrightarrow> task_finished evs)"
    by (auto simp: future_inv_def)
  then show ?thesis
    using h by (auto simp: future_dtor_def detach_def sem_acquire_def)
qed


text \<open>
  Three histories of one future: nothing has happened and the destructor blocks; the task
  has finished and the destructor takes the semaphore; a \<open>get()\<close> blocked until the task
  finished and completed then, and the destructor returns at once.
\<close>

theorem future_dtor_blocks_witness:
  "future_dtor \<lparr>m_heap = Some 1\<rparr> [1 \<mapsto> (new_shared_state :: int future_shared_state)] = blocks
   \<and> history \<lparr>m_heap = Some 1\<rparr> [task_done (Inr 55)] [1 \<mapsto> (new_shared_state :: int future_shared_state)]
       = (0, None, [1 \<mapsto> \<lparr>content = Some (Inr 55), sem = 1, status = no_wait\<rparr>])
   \<and> future_dtor \<lparr>m_heap = Some 1\<rparr> [1 \<mapsto> \<lparr>content = Some (Inr (55 :: int)), sem = 1, status = no_wait\<rparr>]
       = returns () [1 \<mapsto> \<lparr>content = Some (Inr 55), sem = 0, status = no_wait\<rparr>]
   \<and> history \<lparr>m_heap = Some 1\<rparr> [call_get, task_done (Inr 55)] [1 \<mapsto> (new_shared_state :: int future_shared_state)]
       = (1, None, [1 \<mapsto> \<lparr>content = Some (Inr 55), sem = 0, status = retrievd\<rparr>])
   \<and> future_dtor \<lparr>m_heap = Some 1\<rparr> [1 \<mapsto> \<lparr>content = Some (Inr (55 :: int)), sem = 0, status = retrievd\<rparr>]
       = returns () [1 \<mapsto> \<lparr>content = Some (Inr 55), sem = 0, status = retrievd\<rparr>]"
proof -
  let ?f = "\<lparr>m_heap = Some (1 :: ptr)\<rparr>"
  let ?s0 = "[1 \<mapsto> (new_shared_state :: int future_shared_state)]"
  have h: "m_heap ?f = Some 1" by simp
  have s: "?s0 1 = Some new_shared_state" by simp
  have h0: "history ?f [] ?s0 = (0, None, ?s0)" by (simp add: history_def)
  have h1: "history ?f [task_done (Inr 55)] ?s0
       = (0, None, [1 \<mapsto> \<lparr>content = Some (Inr 55), sem = 1, status = no_wait\<rparr>])"
    by (simp add: history_def root_task_finishes_def new_shared_state_def)
  have h2: "history ?f [call_get, task_done (Inr 55)] ?s0
       = (1, None, [1 \<mapsto> \<lparr>content = Some (Inr 55), sem = 0, status = retrievd\<rparr>])"
    by (simp add: history_def root_task_finishes_def new_shared_state_def owner_calls_def
        perform_def future_get_def future_wait_def sem_acquire_def Let_def)
  from future_dtor_blocks [of ?f 1 ?s0, OF h s h0] future_dtor_blocks [of ?f 1 ?s0, OF h s h1]
    future_dtor_blocks [of ?f 1 ?s0, OF h s h2] h1 h2
  show ?thesis
    by (simp add: task_finished_def new_shared_state_def)
qed

section \<open>Steal target selection: the probes of a steal attempt\<close>

lemma steal_code_cases:
  "fst (fst (steal c d)) = none \<and> (\<exists>t. snd (fst (steal c d)) = Some t)
   \<or> fst (fst (steal c d)) \<noteq> none \<and> snd (steal c d) = d \<and> snd (fst (steal c d)) = None"
  by (simp add: steal_def Let_def)

lemma steal_each_all_fail:
  assumes "\<forall>j < length vs. fst (fst (steal (cas (k + j)) (ds (vs ! j)))) \<noteq> none"
  shows "steal_each cas k vs ds = (None, ds, vs)"
  using assms
proof (induction vs arbitrary: k)
  case Nil
  show ?case by simp
next
  case (Cons v vs)
  from Cons.prems have f: "fst (fst (steal (cas k) (ds v))) \<noteq> none" by auto
  with steal_code_cases [of "cas k" "ds v"] have u: "snd (steal (cas k) (ds v)) = ds v" by auto
  have "\<forall>j < length vs. fst (fst (steal (cas (Suc k + j)) (ds (vs ! j)))) \<noteq> none"
    using Cons.prems by auto
  from Cons.IH [OF this] have ih: "steal_each cas (Suc k) vs ds = (None, ds, vs)" .
  obtain code t d' where s: "steal (cas k) (ds v) = ((code, t), d')"
    by (metis prod.exhaust)
  with f u have "code \<noteq> none" "d' = ds v" by auto
  then show ?case using s ih by (cases code) simp_all
qed

lemma steal_each_first:
  assumes "n < length vs"
    and "\<forall>j < n. fst (fst (steal (cas (k + j)) (ds (vs ! j)))) \<noteq> none"
    and "fst (fst (steal (cas (k + n)) (ds (vs ! n)))) = none"
  shows "steal_each cas k vs ds =
           (snd (fst (steal (cas (k + n)) (ds (vs ! n)))),
            ds(vs ! n := snd (steal (cas (k + n)) (ds (vs ! n)))),
            take (Suc n) vs)"
  using assms
proof (induction vs arbitrary: k n)
  case Nil
  then show ?case by simp
next
  case (Cons v vs)
  obtain code t d' where s: "steal (cas k) (ds v) = ((code, t), d')"
    by (metis prod.exhaust)
  show ?case
  proof (cases n)
    case 0
    with Cons.prems(3) s have "code = none" by simp
    with 0 s show ?thesis by (simp add: fun_upd_def)
  next
    case (Suc m)
    with Cons.prems have f: "fst (fst (steal (cas k) (ds v))) \<noteq> none" by auto
    with steal_code_cases [of "cas k" "ds v"] s have c: "code \<noteq> none" "d' = ds v" by auto
    have ih: "steal_each cas (Suc k) vs ds =
           (snd (fst (steal (cas (Suc k + m)) (ds (vs ! m)))),
            ds(vs ! m := snd (steal (cas (Suc k + m)) (ds (vs ! m)))),
            take (Suc m) vs)"
    proof (rule Cons.IH)
      show "m < length vs" using Cons.prems Suc by simp
      show "\<forall>j<m. fst (fst (steal (cas (Suc k + j)) (ds (vs ! j)))) \<noteq> none"
      proof (intro allI impI)
        fix j assume "j < m"
        then have "Suc j < n" using Suc by simp
        with Cons.prems(2) have "fst (fst (steal (cas (k + Suc j)) (ds ((v # vs) ! Suc j)))) \<noteq> none"
          by blast
        then show "fst (fst (steal (cas (Suc k + j)) (ds (vs ! j)))) \<noteq> none" by simp
      qed
      show "fst (fst (steal (cas (Suc k + m)) (ds (vs ! m)))) = none"
        using Cons.prems(3) Suc by simp
    qed
    have same: "ds(v := d') = ds" using c by simp
    have "steal_each cas k (v # vs) ds =
            (case steal_each cas (Suc k) vs ds of (r, c', p) \<Rightarrow> (r, c', v # p))"
      using s c(1) same by (cases code) simp_all
    also have "\<dots> = (snd (fst (steal (cas (Suc k + m)) (ds (vs ! m)))),
            ds(vs ! m := snd (steal (cas (Suc k + m)) (ds (vs ! m)))),
            v # take (Suc m) vs)"
      by (simp only: ih prod.case)
    finally show ?thesis by (simp only: Suc nth_Cons_Suc take_Suc_Cons add_Suc_right add_Suc)
  qed
qed

lemma steal_each_append:
  "steal_each cas k (xs @ ys) ds =
     (case steal_each cas k xs ds of
        (Some t, ds', p) \<Rightarrow> (Some t, ds', p)
      | (None, ds', p) \<Rightarrow>
          (case steal_each cas (k + length p) ys ds' of
             (r, ds'', p') \<Rightarrow> (r, ds'', p @ p')))"
proof (induction xs arbitrary: k ds)
  case Nil
  show ?case by (simp split: prod.splits)
next
  case (Cons x xs)
  obtain code t d' where s: "steal (cas k) (ds x) = ((code, t), d')"
    by (metis prod.exhaust)
  define ds1 where "ds1 = ds(x := d')"
  obtain r1 c1 p1 where e1: "steal_each cas (Suc k) xs ds1 = (r1, c1, p1)"
    by (metis prod.exhaust)
  obtain r2 c2 p2 where e2: "steal_each cas (Suc k + length p1) ys c1 = (r2, c2, p2)"
    by (metis prod.exhaust)
  have ih: "steal_each cas (Suc k) (xs @ ys) ds1 =
              (case r1 of Some t \<Rightarrow> (Some t, c1, p1) | None \<Rightarrow> (r2, c2, p1 @ p2))"
    using e2 by (simp add: Cons.IH e1 split: option.splits)
  show ?case
  proof (cases "code = none")
    case True
    with steal_code_cases [of "cas k" "ds x"] s obtain u where "t = Some u" by auto
    with s True show ?thesis by simp
  next
    case False
    then have l: "steal_each cas k (x # zs) ds =
              (case steal_each cas (Suc k) zs ds1 of (r, c', p) \<Rightarrow> (r, c', x # p))" for zs
      using s by (cases code) (simp_all add: ds1_def)
    show ?thesis
      using l [of "xs @ ys"] l [of xs] e2
      by (simp add: ih e1 split: option.splits)
  qed
qed


lemma try_steal_plan:
  assumes "m_neigh nc \<noteq> []" "1024 + 32 * length (m_neigh nc) < 2 ^ 64"
  shows "try_steal shuffled draw cas nc contexts =
           (case steal_each cas 0 (steal_plan shuffled draw nc) contexts of
              (r, ds', p) \<Rightarrow> (r, nc\<lparr>m_close := shuffled\<rparr>, ds', p))"
  using assms
  by (simp add: try_steal_def steal_plan_def steal_each_append k_min_steal_attempts_def
      k_steal_attempts_per_target_def Let_def split: prod.splits option.splits)

lemma map_nth_from_1: "map ((!) xs) [1..<length xs] = drop 1 xs"
proof -
  have "drop 1 (map ((!) xs) [0..<length xs]) = map ((!) xs) [1..<length xs]"
    by (simp add: drop_map)
  then show ?thesis by (simp add: map_nth)
qed

lemma m_neigh_init:
  "m_neigh (init_worker_and_bind fl neighbors) = concat (drop 1 neighbors)"
proof -
  have "m_neigh (init_worker_and_bind fl neighbors)
        = concat (map ((!) neighbors) [1..<length neighbors])"
    by (simp add: init_worker_and_bind_def weighted_neighbors_def map_concat comp_def)
  then show ?thesis using map_nth_from_1 [of neighbors] by simp
qed

lemma m_dist_init:
  "m_dist (init_worker_and_bind fl neighbors) =
     concat (map (\<lambda>i. replicate (length (neighbors ! i)) (cohort_weight fl neighbors i))
                 [1..<length neighbors])"
  by (simp add: init_worker_and_bind_def weighted_neighbors_def map_concat comp_def
      map_replicate_const)

lemma fl_bounds:
  fixes fl :: "real \<Rightarrow> real"
  assumes fl: "\<forall>x. \<bar>fl x - x\<bar> \<le> u * \<bar>x\<bar>" and x: "0 \<le> x"
  shows "x * (1 - u) \<le> fl x" "fl x \<le> x * (1 + u)"
proof -
  from fl have "\<bar>fl x - x\<bar> \<le> u * \<bar>x\<bar>" by blast
  moreover from x have "\<bar>x\<bar> = x" by simp
  ultimately have "\<bar>fl x - x\<bar> \<le> u * x" by simp
  then show "x * (1 - u) \<le> fl x" "fl x \<le> x * (1 + u)"
    by (simp_all add: algebra_simps abs_le_iff)
qed


lemma scaled_fl:
  fixes fl :: "real \<Rightarrow> real"
  assumes fl: "\<forall>x. \<bar>fl x - x\<bar> \<le> u * \<bar>x\<bar>" and u: "0 \<le> u" "u < 1"
    and a: "0 < a" and l: "0 \<le> l" and w: "scaled_between l h a x"
  shows "scaled_between (l * (1 - u)) (h * (1 + u)) a (fl x)"
proof -
  from w have lo: "l * a \<le> x" and hi: "x \<le> h * a" by (simp_all add: scaled_between_def)
  from l a have "0 \<le> l * a" by simp
  with lo have x: "0 \<le> x" by simp
  from fl_bounds [OF fl x] have f: "x * (1 - u) \<le> fl x" "fl x \<le> x * (1 + u)" .
  have "(l * a) * (1 - u) \<le> x * (1 - u)"
    using lo u by (intro mult_right_mono) simp_all
  moreover have "x * (1 + u) \<le> (h * a) * (1 + u)"
    using hi u by (intro mult_right_mono) simp_all
  ultimately show ?thesis using f by (simp add: scaled_between_def algebra_simps)
qed

lemma scaled_mult:
  assumes a: "0 < a" and b: "0 < b" and l: "0 \<le> l" "0 \<le> l'"
    and x: "scaled_between l h a x" and y: "scaled_between l' h' b y"
  shows "scaled_between (l * l') (h * h') (a * b) (x * y)"
proof -
  from x y have lo: "l * a \<le> x" "l' * b \<le> y" and hi: "x \<le> h * a" "y \<le> h' * b"
    by (simp_all add: scaled_between_def)
  have 0: "0 \<le> l * a" "0 \<le> l' * b" using a b l by simp_all
  with lo have p: "0 \<le> x" "0 \<le> y" by simp_all
  have "(l * a) * (l' * b) \<le> x * y"
    using lo 0 p by (intro mult_mono) simp_all
  moreover have "x * y \<le> (h * a) * (h' * b)"
    using hi p by (intro mult_mono) (simp_all add: order_trans [OF p(1) hi(1)])
  ultimately show ?thesis by (simp add: scaled_between_def algebra_simps)
qed

lemma scaled_inverse:
  assumes a: "0 < a" and l: "0 < l" and x: "scaled_between l h a x"
  shows "scaled_between (1 / h) (1 / l) (1 / a) (1 / x)"
proof -
  from x have lo: "l * a \<le> x" and hi: "x \<le> h * a" by (simp_all add: scaled_between_def)
  from a l have la: "0 < l * a" by simp
  with lo have xp: "0 < x" by simp
  with hi have ha: "0 < h * a" by simp
  have "1 / (h * a) \<le> 1 / x" using hi xp by (simp add: frac_le)
  moreover have "1 / x \<le> 1 / (l * a)" using lo la by (simp add: frac_le)
  ultimately show ?thesis by (simp add: scaled_between_def)
qed

lemma cohort_weight_near:
  assumes fl: "\<forall>x. \<bar>fl x - x\<bar> \<le> u * \<bar>x\<bar>" and u: "0 \<le> u" "u < 1"
    and i: "0 < i" and n: "neighbors ! i \<noteq> []"
  shows "weight_near u (hop_weight neighbors i) (cohort_weight fl neighbors i)"
    and "0 < cohort_weight fl neighbors i"
proof -
  define N :: real where "N = of_nat (length (neighbors ! i))"
  define I :: real where "I = of_nat i"
  define lo where "lo = 1 - u"
  define hi where "hi = 1 + u"
  have N: "0 < N" and I: "0 < I" using i n by (simp_all add: N_def I_def)
  have lo: "0 < lo" and hi: "0 < hi" using u by (simp_all add: lo_def hi_def)
  have wN: "scaled_between 1 1 N N" and wI: "scaled_between 1 1 I I" by (simp_all add: scaled_between_def)
  from scaled_fl [OF fl u N _ wN] have n1: "scaled_between lo hi N (fl N)"
    by (simp add: lo_def hi_def)
  from scaled_fl [OF fl u I _ wI] have i1: "scaled_between lo hi I (fl I)"
    by (simp add: lo_def hi_def)
  from scaled_mult [OF N I _ _ n1 i1] lo
  have p0: "scaled_between (lo * lo) (hi * hi) (N * I) (fl N * fl I)" by simp
  from scaled_fl [OF fl u _ _ p0] N I lo
  have p1: "scaled_between (lo * lo * lo) (hi * hi * hi) (N * I) (fl (fl N * fl I))"
    by (simp add: lo_def hi_def)
  from scaled_mult [OF _ I _ _ p1 i1] N I lo
  have q0: "scaled_between (lo * lo * lo * lo) (hi * hi * hi * hi) (N * I * I) (fl (fl N * fl I) * fl I)"
    by simp
  from scaled_fl [OF fl u _ _ q0] N I lo
  have q1: "scaled_between (lo ^ 5) (hi ^ 5) (N * I * I) (fl (fl (fl N * fl I) * fl I))"
    by (simp add: lo_def hi_def power_def numeral_eq_Suc mult.assoc)
  from scaled_inverse [OF _ _ q1] N I lo
  have r0: "scaled_between (1 / hi ^ 5) (1 / lo ^ 5) (1 / (N * I * I)) (1 / fl (fl (fl N * fl I) * fl I))"
    by simp
  have e: "0 < 1 / (N * I * I)" using N I by simp
  have "0 \<le> 1 / hi ^ 5" using hi by simp
  from scaled_fl [OF fl u e this r0]
  have w: "scaled_between (1 / hi ^ 5 * lo) (1 / lo ^ 5 * hi) (1 / (N * I * I))
             (cohort_weight fl neighbors i)"
    by (simp add: cohort_weight_def Let_def N_def I_def lo_def hi_def)
  have x: "hop_weight neighbors i = 1 / (N * I * I)"
    by (simp add: hop_weight_def N_def I_def power2_eq_square mult_ac)
  from w show "weight_near u (hop_weight neighbors i) (cohort_weight fl neighbors i)"
    by (simp add: weight_near_def scaled_between_def x lo_def hi_def mult_ac)
  have "0 < 1 / hi ^ 5 * lo * (1 / (N * I * I))" using hi lo e by simp
  with w show "0 < cohort_weight fl neighbors i" by (simp add: scaled_between_def)
qed


lemma weighted_neighbors_nth:
  assumes "k < length (weighted_neighbors fl neighbors)"
  shows "\<exists>i. 1 \<le> i \<and> i < length neighbors \<and>
             snd (weighted_neighbors fl neighbors ! k) \<in> set (neighbors ! i) \<and>
             fst (weighted_neighbors fl neighbors ! k) = cohort_weight fl neighbors i"
proof -
  from assms have "weighted_neighbors fl neighbors ! k \<in> set (weighted_neighbors fl neighbors)"
    by simp
  then obtain i c where "i \<in> set [1..<length neighbors]" "c \<in> set (neighbors ! i)"
    "weighted_neighbors fl neighbors ! k = (cohort_weight fl neighbors i, c)"
    unfolding weighted_neighbors_def by auto
  then show ?thesis by (intro exI [of _ i]) simp
qed

text \<open>
  Claim C9. A steal attempt of a worker whose weighted neighbor list is not empty, in a
  context as \<open>init_worker_and_bind\<close> set it up from the topology \<open>neighbors\<close> and earlier
  attempts left it. The close set is the first-hop cohort in some order, and the attempt
  leaves it shuffled and the weighted list as it was. The weighted list is the cohorts
  from hop distance 1 on, one after the other, every context once; the weight of a
  context at hop distance \<open>i\<close> is the \<open>double\<close> computed for \<open>1 / (|cohort i| * i * i)\<close>, which
  is \<open>1 / (i\<^sup>2 * |cohort i|)\<close> up to the rounding of its five operations, and positive. The
  probes are the members of the shuffled close set, each once, followed by exactly
  \<open>1024 + 32 * |neighbors|\<close> draws from the weighted list. Every probe is one \<open>steal()\<close>; a
  probe that returns \<open>lost\<close> or \<open>empty\<close> leaves its victim as it was and the attempt goes on
  with the next probe. If no probe succeeds the attempt returns \<open>nullptr\<close> after the whole
  plan; otherwise it returns the task of the first probe that succeeds, and probes no
  further.
\<close>

theorem try_steal_probes:
  fixes fl :: "real \<Rightarrow> real"
  assumes fl: "\<forall>x. \<bar>fl x - x\<bar> \<le> u * \<bar>x\<bar>" and u: "0 \<le> u" "u < 1"
    and nc: "bound_to fl neighbors nc"
    and neigh: "m_neigh nc \<noteq> []"
    and size: "1024 + 32 * length (m_neigh nc) < 2 ^ 64"
    and perm: "mset shuffled = mset (m_close nc)"
    and draws: "\<forall>i. in_support (m_dist nc) (draw i)"
    and res: "try_steal shuffled draw cas nc contexts = (r, nc', contexts', probed)"
  defines "plan \<equiv> steal_plan shuffled draw nc"
  shows "nc' = nc\<lparr>m_close := shuffled\<rparr> \<and> bound_to fl neighbors nc'
       \<and> mset (m_close nc) = mset (if 1 < length neighbors then neighbors ! 1 else [])
       \<and> m_neigh nc = concat (drop 1 neighbors)
       \<and> m_dist nc = concat (map (\<lambda>i. replicate (length (neighbors ! i))
                                          (cohort_weight fl neighbors i)) [1..<length neighbors])
       \<and> (\<forall>k < length (m_neigh nc).
             \<exists>i. 1 \<le> i \<and> i < length neighbors \<and> m_neigh nc ! k \<in> set (neighbors ! i) \<and>
                 m_dist nc ! k = cohort_weight fl neighbors i \<and> 0 < m_dist nc ! k \<and>
                 weight_near u (hop_weight neighbors i) (m_dist nc ! k))
       \<and> length plan = length (m_close nc) + (1024 + 32 * length (m_neigh nc))
       \<and> mset (take (length (m_close nc)) plan) = mset (m_close nc)
       \<and> (\<forall>i < 1024 + 32 * length (m_neigh nc).
             draw i < length (m_neigh nc) \<and>
             plan ! (length (m_close nc) + i) = m_neigh nc ! draw i)
       \<and> ((\<forall>k < length plan. \<not> probe_succeeds cas contexts plan k) \<longrightarrow>
             r = None \<and> probed = plan \<and> contexts' = contexts)
       \<and> (\<forall>k < length plan.
             probe_succeeds cas contexts plan k \<and> (\<forall>j < k. \<not> probe_succeeds cas contexts plan j) \<longrightarrow>
             r = snd (fst (steal (cas k) (contexts (plan ! k)))) \<and> r \<noteq> None \<and>
             probed = take (Suc k) plan \<and>
             contexts' = contexts(plan ! k := snd (steal (cas k) (contexts (plan ! k)))))"
proof -
  let ?init = "init_worker_and_bind fl neighbors"
  from nc have nd: "m_dist nc = m_dist ?init" and nn: "m_neigh nc = m_neigh ?init"
    and ncl: "mset (m_close nc) = mset (m_close ?init)"
    by (simp_all add: bound_to_def)
  have len: "length shuffled = length (m_close nc)"
    using perm by (rule mset_eq_length)
  have dl: "length (m_dist nc) = length (m_neigh nc)"
    by (simp add: nd nn init_worker_and_bind_def)
  have plan: "plan = shuffled @ map (\<lambda>i. m_neigh nc ! draw i) [0..<1024 + 32 * length (m_neigh nc)]"
    by (simp add: plan_def steal_plan_def)
  from res try_steal_plan [OF neigh size, of shuffled draw cas contexts]
  have run: "steal_each cas 0 plan contexts = (r, contexts', probed)"
    and p0: "nc' = nc\<lparr>m_close := shuffled\<rparr>"
    by (simp_all add: plan_def split: prod.splits)
  have p0': "bound_to fl neighbors nc'"
    using nc perm by (simp add: p0 bound_to_def)
  have p1: "mset (m_close nc) = mset (if 1 < length neighbors then neighbors ! 1 else [])"
    by (simp add: ncl init_worker_and_bind_def)
  have p2: "m_neigh nc = concat (drop 1 neighbors)"
    by (simp add: nn m_neigh_init)
  have p3: "m_dist nc = concat (map (\<lambda>i. replicate (length (neighbors ! i))
                                          (cohort_weight fl neighbors i)) [1..<length neighbors])"
    by (simp add: nd m_dist_init)
  have p4: "\<forall>k < length (m_neigh nc).
             \<exists>i. 1 \<le> i \<and> i < length neighbors \<and> m_neigh nc ! k \<in> set (neighbors ! i) \<and>
                 m_dist nc ! k = cohort_weight fl neighbors i \<and> 0 < m_dist nc ! k \<and>
                 weight_near u (hop_weight neighbors i) (m_dist nc ! k)"
  proof (intro allI impI)
    fix k assume k: "k < length (m_neigh nc)"
    then have kw: "k < length (weighted_neighbors fl neighbors)"
      by (simp add: nn init_worker_and_bind_def)
    from weighted_neighbors_nth [OF kw] obtain i where
      i: "1 \<le> i" "i < length neighbors"
        "snd (weighted_neighbors fl neighbors ! k) \<in> set (neighbors ! i)"
        "fst (weighted_neighbors fl neighbors ! k) = cohort_weight fl neighbors i"
      by blast
    from i(3) have ne: "neighbors ! i \<noteq> []" by auto
    from i(1) have ip: "0 < i" by simp
    have a: "m_neigh nc ! k = snd (weighted_neighbors fl neighbors ! k)"
      and b: "m_dist nc ! k = fst (weighted_neighbors fl neighbors ! k)"
      using kw by (simp_all add: nn nd init_worker_and_bind_def)
    from cohort_weight_near [OF fl u ip ne] i a b
    show "\<exists>i. 1 \<le> i \<and> i < length neighbors \<and> m_neigh nc ! k \<in> set (neighbors ! i) \<and>
                 m_dist nc ! k = cohort_weight fl neighbors i \<and> 0 < m_dist nc ! k \<and>
                 weight_near u (hop_weight neighbors i) (m_dist nc ! k)"
      by (intro exI [of _ i]) simp
  qed
  have p5: "length plan = length (m_close nc) + (1024 + 32 * length (m_neigh nc))"
    by (simp add: plan len)
  have p6: "mset (take (length (m_close nc)) plan) = mset (m_close nc)"
    using perm by (simp add: plan len [symmetric])
  have p7: "\<forall>i < 1024 + 32 * length (m_neigh nc).
             draw i < length (m_neigh nc) \<and>
             plan ! (length (m_close nc) + i) = m_neigh nc ! draw i"
    using draws dl
    by (simp add: plan len [symmetric] nth_append in_support_def del: upt_Suc)
  have p8: "(\<forall>k < length plan. \<not> probe_succeeds cas contexts plan k) \<longrightarrow>
             r = None \<and> probed = plan \<and> contexts' = contexts"
  proof
    assume "\<forall>k < length plan. \<not> probe_succeeds cas contexts plan k"
    then have "\<forall>j < length plan. fst (fst (steal (cas (0 + j)) (contexts (plan ! j)))) \<noteq> none"
      by (simp add: probe_succeeds_def)
    from steal_each_all_fail [OF this] run
    show "r = None \<and> probed = plan \<and> contexts' = contexts" by simp
  qed
  have p9: "\<forall>k < length plan.
             probe_succeeds cas contexts plan k \<and> (\<forall>j < k. \<not> probe_succeeds cas contexts plan j) \<longrightarrow>
             r = snd (fst (steal (cas k) (contexts (plan ! k)))) \<and> r \<noteq> None \<and>
             probed = take (Suc k) plan \<and>
             contexts' = contexts(plan ! k := snd (steal (cas k) (contexts (plan ! k))))"
  proof (intro allI impI)
    fix k assume k: "k < length plan"
      and s: "probe_succeeds cas contexts plan k \<and> (\<forall>j < k. \<not> probe_succeeds cas contexts plan j)"
    from s have a: "\<forall>j < k. fst (fst (steal (cas (0 + j)) (contexts (plan ! j)))) \<noteq> none"
      and b: "fst (fst (steal (cas (0 + k)) (contexts (plan ! k)))) = none"
      by (simp_all add: probe_succeeds_def)
    from steal_code_cases [of "cas k" "contexts (plan ! k)"] b
    have "snd (fst (steal (cas k) (contexts (plan ! k)))) \<noteq> None" by auto
    with steal_each_first [OF k a b] run
    show "r = snd (fst (steal (cas k) (contexts (plan ! k)))) \<and> r \<noteq> None \<and>
             probed = take (Suc k) plan \<and>
             contexts' = contexts(plan ! k := snd (steal (cas k) (contexts (plan ! k))))"
      by simp
  qed
  from p0 p0' p1 p2 p3 p4 p5 p6 p7 p8 p9 show ?thesis by blast
qed


text \<open>
  The topology \<open>[[0], [1, 5], [2, 3, 4]]\<close> with exact arithmetic, the shuffle \<open>[5, 1]\<close> and
  every draw giving index 2 (the context 2 at hop distance 2, of weight 1/12): with a
  task on the deque of context 2 the third probe takes it. In a second attempt, from the
  context the first left and with every deque empty, all 1186 probes fail.
\<close>

theorem try_steal_probes_witness:
  "m_dist (init_worker_and_bind (\<lambda>x. x) ex_topology) = [1 / 2, 1 / 2, 1 / 12, 1 / 12, 1 / 12]
   \<and> m_neigh (init_worker_and_bind (\<lambda>x. x) ex_topology) = [1, 5, 2, 3, 4]
   \<and> length (steal_plan [5, 1] (\<lambda>_. 2) (init_worker_and_bind (\<lambda>x. x) ex_topology)) = 1186
   \<and> try_steal [5, 1] (\<lambda>_. 2) (\<lambda>_. True) (init_worker_and_bind (\<lambda>x. x) ex_topology) ex_contexts
       = (Some 1000, (init_worker_and_bind (\<lambda>x. x) ex_topology)\<lparr>m_close := [5, 1]\<rparr>,
          ex_contexts(2 := (ex_contexts 2)\<lparr>m_top := 1\<rparr>), [5, 1, 2])
   \<and> try_steal [1, 5] (\<lambda>_. 2) (\<lambda>_. True)
         ((init_worker_and_bind (\<lambda>x. x) ex_topology)\<lparr>m_close := [5, 1]\<rparr>) (\<lambda>_. new_deque 1)
       = (None, (init_worker_and_bind (\<lambda>x. x) ex_topology)\<lparr>m_close := [1, 5]\<rparr>,
          (\<lambda>_. new_deque 1),
          steal_plan [1, 5] (\<lambda>_. 2) (init_worker_and_bind (\<lambda>x. x) ex_topology))"
proof -
  let ?fl = "(\<lambda>x. x) :: real \<Rightarrow> real"
  let ?nc = "init_worker_and_bind ?fl ex_topology"
  let ?nc2 = "?nc\<lparr>m_close := [5, 1]\<rparr>"
  let ?plan = "steal_plan [5, 1] (\<lambda>_. 2) ?nc"
  let ?plan2 = "steal_plan [1, 5] (\<lambda>_. 2) ?nc2"
  have fl: "\<forall>x. \<bar>?fl x - x\<bar> \<le> 0 * \<bar>x\<bar>" by simp
  have u: "(0 :: real) \<le> 0" "(0 :: real) < 1" by simp_all
  have w: "weighted_neighbors ?fl ex_topology =
             [(1 / 2, 1), (1 / 2, 5), (1 / 12, 2), (1 / 12, 3), (1 / 12, 4)]"
    by (simp add: weighted_neighbors_def ex_topology_def cohort_weight_def upt_rec [of 1]
        upt_rec [of 2])
  have c: "m_close ?nc = [1, 5]" "m_neigh ?nc = [1, 5, 2, 3, 4]"
    "m_dist ?nc = [1 / 2, 1 / 2, 1 / 12, 1 / 12, 1 / 12]"
    by (simp_all add: init_worker_and_bind_def w) (simp_all add: ex_topology_def)
  have b: "bound_to ?fl ex_topology ?nc" by (simp add: bound_to_def)
  have b2: "bound_to ?fl ex_topology ?nc2" by (simp add: bound_to_def c)
  have n: "m_neigh ?nc \<noteq> []" "m_neigh ?nc2 \<noteq> []" by (simp_all add: c)
  have sz: "1024 + 32 * length (m_neigh ?nc) < 2 ^ 64"
    "1024 + 32 * length (m_neigh ?nc2) < 2 ^ 64" by (simp_all add: c)
  have p: "mset [5, 1] = mset (m_close ?nc)" "mset [1, 5] = mset (m_close ?nc2)"
    by (simp_all add: c)
  have d: "\<forall>i. in_support (m_dist ?nc) ((\<lambda>_. 2) i)" "\<forall>i. in_support (m_dist ?nc2) ((\<lambda>_. 2) i)"
    by (simp_all add: c in_support_def)
  let ?r = "try_steal [5, 1] (\<lambda>_. 2) (\<lambda>_. True) ?nc ex_contexts"
  let ?e = "try_steal [1, 5] (\<lambda>_. 2) (\<lambda>_. True) ?nc2 (\<lambda>_. new_deque 1)"
  have r: "?r = (fst ?r, fst (snd ?r), fst (snd (snd ?r)), snd (snd (snd ?r)))" by simp
  have e: "?e = (fst ?e, fst (snd ?e), fst (snd (snd ?e)), snd (snd (snd ?e)))" by simp
  note tr = try_steal_probes [OF fl u b n(1) sz(1) p(1) d(1) r]
  note te = try_steal_probes [OF fl u b2 n(2) sz(2) p(2) d(2) e]
  from tr have "length ?plan = length (m_close ?nc) + (1024 + 32 * length (m_neigh ?nc))"
    by blast
  then have l: "length ?plan = 1186" by (simp add: c)
  have p0: "?plan ! 0 = 5" "?plan ! 1 = 1" by (simp_all add: steal_plan_def)
  from tr have "\<forall>i < 1024 + 32 * length (m_neigh ?nc).
      2 < length (m_neigh ?nc) \<and> ?plan ! (length (m_close ?nc) + i) = m_neigh ?nc ! 2"
    by blast
  from this [rule_format, of 0]
  have "?plan ! (length (m_close ?nc) + 0) = m_neigh ?nc ! 2" by simp
  then have p2: "?plan ! 2 = 2" by (simp add: c numeral_2_eq_2)
  have s0: "\<not> probe_succeeds (\<lambda>_. True) ex_contexts ?plan 0"
    "\<not> probe_succeeds (\<lambda>_. True) ex_contexts ?plan 1"
    using p0 by (simp_all add: probe_succeeds_def ex_contexts_def steal_def new_deque_def)
  have s2: "probe_succeeds (\<lambda>_. True) ex_contexts ?plan 2"
    using p2 by (simp add: probe_succeeds_def ex_contexts_def steal_def)
  have st: "steal True (ex_contexts 2) = ((none, Some 1000), (ex_contexts 2)\<lparr>m_top := 1\<rparr>)"
    by (simp add: ex_contexts_def steal_def ring_load_def)
  have "2 < length ?plan" using l by simp
  moreover have "\<forall>j < 2. \<not> probe_succeeds (\<lambda>_. True) ex_contexts ?plan j"
    using s0 by (auto simp add: less_Suc_eq numeral_2_eq_2)
  ultimately have
    "fst ?r = snd (fst (steal True (ex_contexts (?plan ! 2))))
     \<and> snd (snd (snd ?r)) = take (Suc 2) ?plan
     \<and> fst (snd (snd ?r)) = ex_contexts(?plan ! 2 := snd (steal True (ex_contexts (?plan ! 2))))"
    using tr s2 by blast
  moreover have "take (Suc 2) ?plan = [5, 1, 2]"
    using p0 p2 l by (simp add: take_Suc_conv_app_nth numeral_2_eq_2)
  moreover have "fst (snd ?r) = ?nc2" using tr by blast
  ultimately have R: "?r = (Some 1000, ?nc2, ex_contexts(2 := (ex_contexts 2)\<lparr>m_top := 1\<rparr>), [5, 1, 2])"
    using r p2 st by simp
  have "\<forall>k. \<not> probe_succeeds (\<lambda>_. True) (\<lambda>_. new_deque 1) ?plan2 k"
    by (simp add: probe_succeeds_def steal_def new_deque_def)
  with te have "fst ?e = None \<and> snd (snd (snd ?e)) = ?plan2 \<and> fst (snd (snd ?e)) = (\<lambda>_. new_deque 1)"
    by blast
  moreover from te have "fst (snd ?e) = ?nc2\<lparr>m_close := [1, 5]\<rparr>" by blast
  then have "fst (snd ?e) = ?nc\<lparr>m_close := [1, 5]\<rparr>" by simp
  moreover have "?plan2 = steal_plan [1, 5] (\<lambda>_. 2) ?nc" by (simp add: steal_plan_def)
  ultimately have E: "?e = (None, ?nc\<lparr>m_close := [1, 5]\<rparr>, (\<lambda>_. new_deque 1),
                            steal_plan [1, 5] (\<lambda>_. 2) ?nc)"
    using e by simp
  from c l R E show ?thesis by simp
qed

section \<open>Lazy pool: what one call of \<open>thief_work_sleep\<close> does\<close>

lemma length_on_domain [simp]: "length (numa (on_domain i f v)) = length (numa v)"
  by (simp add: on_domain_def)

lemma active_on_domain [simp]: "active (on_domain i f v) = active v"
  by (simp add: on_domain_def)

lemma stop_on_domain [simp]: "stop (on_domain i f v) = stop v"
  by (simp add: on_domain_def)

lemma nth_on_domain:
  "numa (on_domain i f v) ! j = (if j = i \<and> i < length (numa v) then f (numa v ! i) else numa v ! j)"
  by (auto simp add: on_domain_def nth_list_update list_update_beyond not_less)

lemma k_add_epoch_value: "k_add_epoch = 4294967296"
  by (simp add: k_add_epoch_def k_epoch_shift_def)

lemma event_count_update: "(ec :: event_count)\<lparr>m_val := x\<rparr> = \<lparr>m_val = x\<rparr>"
  by (cases ec) simp

lemma thief_domain_notify_one [simp]:
  "thief (numa (domain_notify_one i v) ! j) = thief (numa v ! j)"
  by (simp add: domain_notify_one_def nth_on_domain)

lemma effect_notify_one:
  "effect (ev_notify_one i) v = Some (domain_notify_one i v)"
  by (simp add: domain_notify_one_def on_domain_def notify_one_def k_add_epoch_value
      event_count_update)

lemma effect_fetch_sub_thief:
  "effect (ev_fetch_sub_thief i (thief (numa v ! i))) v = Some (thief_fetch_sub i v)"
  by (simp add: thief_fetch_sub_def on_domain_def)

lemma replay_append:
  "replay env k (xs @ ys) v =
     (case replay env k xs v of None \<Rightarrow> None | Some v1 \<Rightarrow> replay env (k + length xs) ys v1)"
  by (induction xs arbitrary: k v) (simp_all split: option.splits)

lemma scan_domains_Cons:
  "scan_domains env k (j # js) v =
     (let t = thief (numa (env k v) ! j)
      in case scan_domains env (if t = 0 then k + 2 else k + 1) js
                (if t = 0 then domain_notify_one j (env (k + 1) (env k v)) else env k v) of
           (k', v', evs) \<Rightarrow>
             (k', v', ev_load_thief j t # (if t = 0 then [ev_notify_one j] else []) @ evs))"
  by (simp add: Let_def split: prod.splits)

lemma scan_domains_replay:
  "scan_domains env k js v = (k', v', evs) \<Longrightarrow>
   replay env k evs v = Some v' \<and> k' = k + length evs"
proof (induction js arbitrary: k v k' v' evs)
  case Nil
  then show ?case by simp
next
  case (Cons j js)
  define t where "t = thief (numa (env k v) ! j)"
  define k2 where "k2 = (if t = 0 then k + 2 else k + 1)"
  define v2 where "v2 = (if t = 0 then domain_notify_one j (env (k + 1) (env k v)) else env k v)"
  obtain k3 v3 evs3 where s: "scan_domains env k2 js v2 = (k3, v3, evs3)"
    by (metis prod.exhaust)
  from Cons.IH [OF s] have ih: "replay env k2 evs3 v2 = Some v3" "k3 = k2 + length evs3"
    by simp_all
  from Cons.prems s have r: "k' = k3" "v' = v3"
    "evs = ev_load_thief j t # (if t = 0 then [ev_notify_one j] else []) @ evs3"
    by (auto simp add: Let_def t_def k2_def v2_def split: if_splits)
  show ?case
  proof (cases "t = 0")
    case True
    with ih r show ?thesis
      by (simp add: t_def [symmetric] effect_notify_one k2_def v2_def del: effect.simps(2))
  next
    case False
    with ih r show ?thesis
      by (simp add: k2_def v2_def t_def [symmetric])
  qed
qed

lemma scan_domains_log:
  assumes "distinct js"
  shows "\<exists>r. snd (snd (scan_domains env k js v)) =
               concat (map (\<lambda>j. ev_load_thief j (r j) # (if r j = 0 then [ev_notify_one j] else [])) js)
           \<and> (env = (\<lambda>_ u. u) \<longrightarrow> (\<forall>j \<in> set js. r j = thief (numa v ! j)))"
  using assms
proof (induction js arbitrary: k v)
  case Nil
  show ?case by simp
next
  case (Cons j js)
  define v1 where "v1 = env k v"
  define t where "t = thief (numa v1 ! j)"
  define v2 where "v2 = (if t = 0 then domain_notify_one j (env (k + 1) v1) else v1)"
  define k2 where "k2 = (if t = 0 then k + 2 else k + 1)"
  from Cons.prems have d: "distinct js" and nj: "j \<notin> set js" by simp_all
  from Cons.IH [OF d, of k2 v2] obtain r where
    r: "snd (snd (scan_domains env k2 js v2)) =
          concat (map (\<lambda>j. ev_load_thief j (r j) # (if r j = 0 then [ev_notify_one j] else [])) js)"
    and rs: "env = (\<lambda>_ u. u) \<longrightarrow> (\<forall>j \<in> set js. r j = thief (numa v2 ! j))"
    by blast
  have step: "snd (snd (scan_domains env k (j # js) v)) =
          (ev_load_thief j t # (if t = 0 then [ev_notify_one j] else [])) @
          snd (snd (scan_domains env k2 js v2))"
    by (simp add: v1_def t_def v2_def k2_def Let_def split: prod.splits)
  let ?r = "r(j := t)"
  have same: "map (\<lambda>j. ev_load_thief j (?r j) # (if ?r j = 0 then [ev_notify_one j] else [])) js
            = map (\<lambda>j. ev_load_thief j (r j) # (if r j = 0 then [ev_notify_one j] else [])) js"
    using nj by (intro map_cong) auto
  have "snd (snd (scan_domains env k (j # js) v)) =
          concat (map (\<lambda>j. ev_load_thief j (?r j) # (if ?r j = 0 then [ev_notify_one j] else [])) (j # js))"
    unfolding step r by (simp add: same del: fun_upd_apply) simp
  moreover have "env = (\<lambda>_ u. u) \<longrightarrow> (\<forall>i \<in> set (j # js). ?r i = thief (numa v ! i))"
  proof
    assume e: "env = (\<lambda>_ u. u)"
    then have "v1 = v" by (simp add: v1_def)
    then have "\<forall>i. thief (numa v2 ! i) = thief (numa v ! i)"
      using e by (simp add: v2_def)
    with rs e show "\<forall>i \<in> set (j # js). ?r i = thief (numa v ! i)"
      using \<open>v1 = v\<close> by (simp add: t_def)
  qed
  ultimately show ?case by blast
qed

lemma scan_domains_vars:
  "fst (snd (scan_domains env k (j # js) v)) =
     fst (snd (scan_domains env
       (if thief (numa (env k v) ! j) = 0 then k + 2 else k + 1) js
       (if thief (numa (env k v) ! j) = 0 then domain_notify_one j (env (k + 1) (env k v))
        else env k v)))"
  by (simp add: Let_def split: prod.splits)

lemma scan_domains_length:
  assumes "\<forall>k u. length (numa (env k u)) = length (numa u)"
  shows "length (numa (fst (snd (scan_domains env k js v)))) = length (numa v)"
proof (induction js arbitrary: k v)
  case Nil
  show ?case by simp
next
  case (Cons j js)
  show ?case
    unfolding scan_domains_vars
    using assms by (simp add: Cons.IH domain_notify_one_def)
qed

lemma scan_domains_active:
  "active (fst (snd (scan_domains (\<lambda>_ u. u) k js v))) = active v"
proof (induction js arbitrary: k v)
  case Nil
  show ?case by simp
next
  case (Cons j js)
  show ?case
    unfolding scan_domains_vars
    by (simp add: Cons.IH domain_notify_one_def)
qed


lemma scan_domains_stop:
  "stop (fst (snd (scan_domains (\<lambda>_ u. u) k js v))) = stop v"
proof (induction js arbitrary: k v)
  case Nil
  show ?case by simp
next
  case (Cons j js)
  show ?case
    unfolding scan_domains_vars
    by (simp add: Cons.IH domain_notify_one_def)
qed

lemma scan_domains_solo:
  assumes "distinct js"
  shows "numa (fst (snd (scan_domains (\<lambda>_ u. u) k js v))) ! i =
           (if i \<in> set js \<and> i < length (numa v) \<and> thief (numa v ! i) = 0
            then (numa v ! i)\<lparr>notifier := \<lparr>m_val = m_val (notifier (numa v ! i)) + k_add_epoch\<rparr>\<rparr>
            else numa v ! i)"
  using assms
proof (induction js arbitrary: k v)
  case Nil
  show ?case by simp
next
  case (Cons j js)
  from Cons.prems have d: "distinct js" and nj: "j \<notin> set js" by simp_all
  show ?case
    unfolding scan_domains_vars
    using nj
    by (auto simp add: Cons.IH [OF d] domain_notify_one_def nth_on_domain notify_one_def
        event_count_update)
qed

text \<open>
  Claim C7 (amended). A call of \<open>thief_work_sleep\<close> by a worker of domain \<open>tid\<close>, whatever
  the other threads do in between: it decrements the thief count of its domain and, if the
  value before was 1, calls \<open>notify_one()\<close> on the notifier of its domain; then it
  increments \<open>active\<close>, and if the value before was 0 it loads the thief count of every
  domain in turn and calls \<open>notify_one()\<close> on exactly the domains whose count it reads as
  zero; then it resumes the task and decrements \<open>active\<close>. The shared variables it leaves
  are those the operations of this log produce, each \<open>notify_one()\<close> adding one to the
  epoch of its domain. With no other thread running, the counts read are those at the
  call, the worker's own domain one less; \<open>active\<close> ends as it began, and the epoch of a
  domain has moved once for each of the two notifications that apply to it.
\<close>

theorem thief_work_sleep_notifies:
  assumes len: "\<forall>k u. length (numa (env k u)) = length (numa u)"
    and tid: "tid < length (numa v)"
    and res: "thief_work_sleep env handle tid v = (v', evs)"
  shows "\<exists>a r a'.
           evs = thief_work_sleep_log handle tid (length (numa v))
                   (thief (numa (env 0 v) ! tid)) a r a'
         \<and> replay env 0 evs v = Some v'
         \<and> (env = (\<lambda>_ u. u) \<longrightarrow>
              a = active v \<and> a' = active v + 1 \<and>
              stop v' = stop v \<and> active v' = active v \<and>
              length (numa v') = length (numa v) \<and>
              (\<forall>j < length (numa v).
                 r j = (if j = tid then thief (numa v ! j) - 1 else thief (numa v ! j)) \<and>
                 thief (numa v' ! j) = r j \<and>
                 m_val (notifier (numa v' ! j)) =
                   m_val (notifier (numa v ! j))
                   + (if j = tid \<and> thief (numa v ! tid) = 1 then k_add_epoch else 0)
                   + (if active v = 0 \<and> r j = 0 then k_add_epoch else 0)))"
proof -
  define v0 where "v0 = env 0 v"
  define t where "t = thief (numa v0 ! tid)"
  define v1 where "v1 = thief_fetch_sub tid v0"
  define k1 :: nat where "k1 = (if t = 1 then 2 else 1)"
  define v2 where "v2 = (if t = 1 then domain_notify_one tid (env 1 v1) else v1)"
  define v3 where "v3 = env k1 v2"
  define a where "a = active v3"
  define v4 where "v4 = v3\<lparr>active := a + 1\<rparr>"
  define sc where "sc = scan_domains env (k1 + 1) [0..<length (numa v4)] v4"
  define k2 where "k2 = (if a = 0 then fst sc else k1 + 1)"
  define v5 where "v5 = (if a = 0 then fst (snd sc) else v4)"
  define evs2 where "evs2 = (if a = 0 then snd (snd sc) else [])"
  define v7 where "v7 = env (k2 + 1) (env k2 v5)"
  define a' where "a' = active v7"
  define evs1 where "evs1 = (if t = 1 then [ev_notify_one tid] else [])"
  have len4: "length (numa v4) = length (numa v)"
    using len
    by (simp add: v4_def v3_def v2_def v1_def v0_def thief_fetch_sub_def domain_notify_one_def)
  have evs: "evs = [ev_fetch_sub_thief tid t] @ evs1 @ [ev_fetch_add_active a] @ evs2 @
                 [ev_resume handle, ev_fetch_sub_active a']"
    and v': "v' = v7\<lparr>active := a' - 1\<rparr>"
    using res
    by (auto simp add: thief_work_sleep_def Let_def v0_def t_def v1_def k1_def v2_def v3_def
        a_def v4_def sc_def k2_def v5_def evs2_def a'_def v7_def evs1_def
        split: prod.splits if_splits)
  from scan_domains_log [of "[0..<length (numa v4)]" env "k1 + 1" v4] obtain r where
    r: "snd (snd sc) =
          concat (map (\<lambda>j. ev_load_thief j (r j) # (if r j = 0 then [ev_notify_one j] else []))
                      [0..<length (numa v4)])"
    and rs: "env = (\<lambda>_ u. u) \<longrightarrow> (\<forall>j \<in> set [0..<length (numa v4)]. r j = thief (numa v4 ! j))"
    unfolding sc_def by auto
  have 1: "evs = thief_work_sleep_log handle tid (length (numa v)) (thief (numa (env 0 v) ! tid)) a r a'"
    unfolding evs thief_work_sleep_log_def evs2_def evs1_def r len4 t_def v0_def by simp
  have r1: "replay env 0 ([ev_fetch_sub_thief tid t] @ evs1) v = Some v2"
    "length ([ev_fetch_sub_thief tid t] @ evs1) = k1"
    by (simp_all add: t_def v0_def [symmetric] effect_fetch_sub_thief effect_notify_one evs1_def
        v2_def v1_def k1_def del: effect.simps)
  have r2: "replay env k1 [ev_fetch_add_active a] v2 = Some v4"
    by (simp add: a_def v3_def [symmetric] v4_def)
  have r3: "replay env (k1 + 1) evs2 v4 = Some v5 \<and> k2 = k1 + 1 + length evs2"
  proof (cases "a = 0")
    case True
    have "scan_domains env (k1 + 1) [0..<length (numa v4)] v4 = (fst sc, fst (snd sc), snd (snd sc))"
      by (simp add: sc_def)
    from scan_domains_replay [OF this] True
    show ?thesis by (simp add: evs2_def v5_def k2_def)
  next
    case False
    then show ?thesis by (simp add: evs2_def v5_def k2_def)
  qed
  have r4: "replay env k2 [ev_resume handle, ev_fetch_sub_active a'] v5 = Some v'"
    by (simp add: v' a'_def v7_def)
  have 2: "replay env 0 evs v = Some v'"
  proof -
    have "replay env 0 (([ev_fetch_sub_thief tid t] @ evs1) @ ([ev_fetch_add_active a] @ (evs2 @
                 [ev_resume handle, ev_fetch_sub_active a']))) v = Some v'"
      unfolding replay_append [of env 0 "[ev_fetch_sub_thief tid t] @ evs1"] r1 option.case add_0
        replay_append [of env k1 "[ev_fetch_add_active a]"] r2
        replay_append [of env _ evs2]
      using r3 r4 by simp
    then show ?thesis by (simp add: evs)
  qed
  have 3: "env = (\<lambda>_ u. u) \<longrightarrow>
              a = active v \<and> a' = active v + 1 \<and>
              stop v' = stop v \<and> active v' = active v \<and>
              length (numa v') = length (numa v) \<and>
              (\<forall>j < length (numa v).
                 r j = (if j = tid then thief (numa v ! j) - 1 else thief (numa v ! j)) \<and>
                 thief (numa v' ! j) = r j \<and>
                 m_val (notifier (numa v' ! j)) =
                   m_val (notifier (numa v ! j))
                   + (if j = tid \<and> thief (numa v ! tid) = 1 then k_add_epoch else 0)
                   + (if active v = 0 \<and> r j = 0 then k_add_epoch else 0))"
  proof
    assume e: "env = (\<lambda>_ u. u)"
    have tv: "t = thief (numa v ! tid)" using e by (simp add: t_def v0_def)
    have n4: "\<forall>j < length (numa v).
               thief (numa v4 ! j) = (if j = tid then thief (numa v ! j) - 1 else thief (numa v ! j))
             \<and> m_val (notifier (numa v4 ! j)) = m_val (notifier (numa v ! j))
                   + (if j = tid \<and> thief (numa v ! tid) = 1 then k_add_epoch else 0)"
      using e tid tv
      by (auto simp add: v4_def v3_def v2_def v1_def v0_def thief_fetch_sub_def nth_on_domain
          domain_notify_one_def notify_one_def)
    have a: "a = active v"
      using e by (simp add: a_def v3_def v2_def v1_def v0_def thief_fetch_sub_def domain_notify_one_def)
    have s4: "stop v4 = stop v"
      using e by (simp add: v4_def v3_def v2_def v1_def v0_def thief_fetch_sub_def domain_notify_one_def)
    have rj: "\<forall>j < length (numa v). r j = thief (numa v4 ! j)"
      using rs e len4 by simp
    have a5: "active v5 = active v4" "stop v5 = stop v4" "length (numa v5) = length (numa v4)"
      using e scan_domains_active [of "k1 + 1" "[0..<length (numa v4)]" v4]
        scan_domains_stop [of "k1 + 1" "[0..<length (numa v4)]" v4]
        scan_domains_length [OF len, of "k1 + 1" "[0..<length (numa v4)]" v4]
      by (simp_all add: v5_def sc_def)
    have n5: "\<forall>j < length (numa v). numa v5 ! j =
               (if a = 0 \<and> thief (numa v4 ! j) = 0
                then (numa v4 ! j)\<lparr>notifier := \<lparr>m_val = m_val (notifier (numa v4 ! j)) + k_add_epoch\<rparr>\<rparr>
                else numa v4 ! j)"
      using e scan_domains_solo [of "[0..<length (numa v4)]" "k1 + 1" v4] len4
      by (simp add: v5_def sc_def)
    have v7: "v7 = v5" using e by (simp add: v7_def)
    have a'v: "a' = active v + 1" using a a5 v7 by (simp add: a'_def v4_def)
    show "a = active v \<and> a' = active v + 1 \<and>
              stop v' = stop v \<and> active v' = active v \<and>
              length (numa v') = length (numa v) \<and>
              (\<forall>j < length (numa v).
                 r j = (if j = tid then thief (numa v ! j) - 1 else thief (numa v ! j)) \<and>
                 thief (numa v' ! j) = r j \<and>
                 m_val (notifier (numa v' ! j)) =
                   m_val (notifier (numa v ! j))
                   + (if j = tid \<and> thief (numa v ! tid) = 1 then k_add_epoch else 0)
                   + (if active v = 0 \<and> r j = 0 then k_add_epoch else 0))"
      using a a'v s4 a5 len4 rj n4 n5
      by (simp add: v' v7)
  qed
  from 1 2 3 show ?thesis by blast
qed


lemma upt_0_2: "[0..<2] = [0, Suc 0]"
  by (simp add: numeral_2_eq_2)

lemma thief_work_sleep_ex_value:
  "thief_work_sleep (\<lambda>_ u. u) 1000 0 ex_vars =
     (ex_vars\<lparr>numa := [\<lparr>thief = 0, notifier = \<lparr>m_val = 8589934592\<rparr>\<rparr>,
                        \<lparr>thief = 2, notifier = \<lparr>m_val = 0\<rparr>\<rparr>]\<rparr>,
      [ev_fetch_sub_thief 0 1, ev_notify_one 0, ev_fetch_add_active 0,
       ev_load_thief 0 0, ev_notify_one 0, ev_load_thief 1 2,
       ev_resume 1000, ev_fetch_sub_active 1])"
  by (simp add: thief_work_sleep_def ex_vars_def Let_def thief_fetch_sub_def on_domain_def
      domain_notify_one_def notify_one_def upt_0_2 k_add_epoch_value event_count_update)

text \<open>
  Two domains with one and two thieves and nobody active; the only thief of domain 0
  takes work. It notifies its own domain twice, whose epoch moves by two, and domain 1,
  which has thieves, not at all.
\<close>

theorem thief_work_sleep_notifies_witness:
  "snd (thief_work_sleep (\<lambda>_ u. u) 1000 0 ex_vars) =
     thief_work_sleep_log 1000 0 2 1 0 (\<lambda>j. if j = 0 then 0 else 2) 1
   \<and> replay (\<lambda>_ u. u) 0 (snd (thief_work_sleep (\<lambda>_ u. u) 1000 0 ex_vars)) ex_vars =
       Some (fst (thief_work_sleep (\<lambda>_ u. u) 1000 0 ex_vars))
   \<and> m_val (notifier (numa (fst (thief_work_sleep (\<lambda>_ u. u) 1000 0 ex_vars)) ! 0)) = 2 * k_add_epoch
   \<and> m_val (notifier (numa (fst (thief_work_sleep (\<lambda>_ u. u) 1000 0 ex_vars)) ! 1)) = 0
   \<and> thief (numa (fst (thief_work_sleep (\<lambda>_ u. u) 1000 0 ex_vars)) ! 0) = 0"
proof -
  let ?e = "(\<lambda>_ u. u) :: interference"
  let ?res = "thief_work_sleep ?e 1000 0 ex_vars"
  have l: "\<forall>k u. length (numa (?e k u)) = length (numa u)" by simp
  have t: "0 < length (numa ex_vars)" by (simp add: ex_vars_def)
  have r: "?res = (fst ?res, snd ?res)" by simp
  from thief_work_sleep_notifies [OF l t r] obtain a r a' where
    e: "snd ?res =
          thief_work_sleep_log 1000 0 (length (numa ex_vars)) (thief (numa ex_vars ! 0)) a r a'"
    and rp: "replay ?e 0 (snd ?res) ex_vars = Some (fst ?res)"
    and a: "a = active ex_vars" "a' = active ex_vars + 1"
    and rj: "\<forall>j < length (numa ex_vars).
                 r j = (if j = 0 then thief (numa ex_vars ! j) - 1 else thief (numa ex_vars ! j)) \<and>
                 thief (numa (fst ?res) ! j) = r j \<and>
                 m_val (notifier (numa (fst ?res) ! j)) =
                   m_val (notifier (numa ex_vars ! j))
                   + (if j = 0 \<and> thief (numa ex_vars ! 0) = 1 then k_add_epoch else 0)
                   + (if active ex_vars = 0 \<and> r j = 0 then k_add_epoch else 0)"
    by auto
  have n: "length (numa ex_vars) = 2" "thief (numa ex_vars ! 0) = 1" "active ex_vars = 0"
    by (simp_all add: ex_vars_def)
  from rj [rule_format, of 0] rj [rule_format, of 1]
  have v: "r 0 = 0" "r 1 = 2"
    "thief (numa (fst ?res) ! 0) = 0"
    "m_val (notifier (numa (fst ?res) ! 0)) = 2 * k_add_epoch"
    "m_val (notifier (numa (fst ?res) ! 1)) = 0"
    by (simp_all add: ex_vars_def)
  have "snd ?res = thief_work_sleep_log 1000 0 2 1 0 (\<lambda>j. if j = 0 then 0 else 2) 1"
    unfolding e a n using v(1,2)
    by (simp add: thief_work_sleep_log_def upt_0_2)
  with rp v show ?thesis by simp
qed

text \<open>So not every domain is notified when \<open>active\<close> rises from 0.\<close>

theorem thief_work_sleep_skips_counterexample:
  "\<not> notifies_every_domain ex_vars (snd (thief_work_sleep (\<lambda>_ u. u) 1000 0 ex_vars))"
  unfolding thief_work_sleep_ex_value
  by (simp add: notifies_every_domain_def ex_vars_def upt_0_2)

end
